theory Spec2Isabelle
  imports Complex_Main "HOL-Library.AList"
begin

section \<open>Python errors and numpy arrays\<close>

text \<open>
  The module \<^verbatim>\<open>utils/tree/load_parameters.py\<close> raises one exception of its own,
  \<^verbatim>\<open>ValueError("Sequences must be of equal length.")\<close>; the other failures that
  can be reached come from numpy indexing (\<^verbatim>\<open>IndexError\<close>) and from Python's
  \<^verbatim>\<open>max\<close> of an empty iterable (again a \<^verbatim>\<open>ValueError\<close>).  A function that can
  raise returns \<open>error + 'a\<close>, the error on the left.

  numpy \<^verbatim>\<open>float64\<close> values are idealised: a finite float is a \<open>real\<close>, and
  \<^verbatim>\<open>np.log\<close>, \<^verbatim>\<open>np.exp\<close> are \<open>ln\<close>, \<open>exp\<close>.  Rounding, overflow
  and NaN are outside the model.
\<close>

datatype error = ValueError | IndexError

text \<open>A two-dimensional array is the list of its rows.\<close>

type_synonym 'a array2 = "'a list list"

definition zeros :: "nat \<Rightarrow> nat \<Rightarrow> ('a::zero) array2" where
  "zeros r c = replicate r (replicate c 0)"

definition set_entry :: "'a array2 \<Rightarrow> nat \<Rightarrow> nat \<Rightarrow> 'a \<Rightarrow> 'a array2" where
  "set_entry A i j v = A[i := (A ! i)[j := v]]"

text \<open>
  Indexing an axis of size \<open>n\<close> with the integer \<open>k\<close>: numpy accepts \<open>-n \<le> k < n\<close>,
  counting a negative index from the end, and raises \<^verbatim>\<open>IndexError\<close> otherwise.
\<close>

definition np_index :: "nat \<Rightarrow> int \<Rightarrow> error + nat" where
  "np_index n k =
     (if 0 \<le> k \<and> k < int n then Inr (nat k)
      else if - int n \<le> k \<and> k < 0 then Inr (nat (k + int n))
      else Inl IndexError)"

definition np_get :: "'a array2 \<Rightarrow> int \<Rightarrow> int \<Rightarrow> error + 'a" where
  "np_get A i j =
     (case np_index (length A) i of
        Inl e \<Rightarrow> Inl e
      | Inr r \<Rightarrow>
          (case np_index (length (A ! r)) j of
             Inl e \<Rightarrow> Inl e
           | Inr c \<Rightarrow> Inr (A ! r ! c)))"

section \<open>The substitution model\<close>

text \<open>
  \<^verbatim>\<open>JukesCantor\<close> is imported from \<^verbatim>\<open>utils.tree.substitution_models\<close>; the code
  below calls two of its methods, which are parameters here.
\<close>

record jc_model =
  optimize_t :: "int array2 \<Rightarrow> real"
  trans_matrix :: "real \<Rightarrow> real array2"

section \<open>compute_log_likelihood\<close>

text \<open>The first loop: \<^verbatim>\<open>for i, j in zip(seq1, seq2): S_ij[i, j] += 1\<close>.\<close>

fun count_loop :: "(int \<times> int) list \<Rightarrow> int array2 \<Rightarrow> error + int array2" where
  "count_loop [] S = Inr S"
| "count_loop ((i, j) # ps) S =
     (case np_index 4 i of
        Inl e \<Rightarrow> Inl e
      | Inr a \<Rightarrow>
          (case np_index 4 j of
             Inl e \<Rightarrow> Inl e
           | Inr b \<Rightarrow> count_loop ps (set_entry S a b (S ! a ! b + 1))))"

text \<open>The second loop: \<^verbatim>\<open>for i, j in zip(seq1, seq2): log_likelihood += np.log(P_t[i, j])\<close>.\<close>

fun loglik_loop :: "real array2 \<Rightarrow> (int \<times> int) list \<Rightarrow> real \<Rightarrow> error + real" where
  "loglik_loop P [] acc = Inr acc"
| "loglik_loop P ((i, j) # ps) acc =
     (case np_get P i j of
        Inl e \<Rightarrow> Inl e
      | Inr p \<Rightarrow> loglik_loop P ps (acc + ln p))"

definition compute_log_likelihood :: "int list \<Rightarrow> int list \<Rightarrow> jc_model \<Rightarrow> error + real" where
  "compute_log_likelihood seq1 seq2 model =
     (if length seq1 \<noteq> length seq2 then Inl ValueError
      else
        (case count_loop (zip seq1 seq2) (zeros 4 4) of
           Inl e \<Rightarrow> Inl e
         | Inr S_ij \<Rightarrow>
             (let t_opt = optimize_t model S_ij;
                  P_t = trans_matrix model t_opt
              in loglik_loop P_t (zip seq1 seq2) 0)))"


definition accepted_index :: "int \<Rightarrow> bool" where
  "accepted_index k = (- 4 \<le> k \<and> k \<le> 3)"

definition wrap4 :: "int \<Rightarrow> nat" where
  "wrap4 k = (if 0 \<le> k then nat k else nat (k + 4))"

definition is_4x4 :: "'a array2 \<Rightarrow> bool" where
  "is_4x4 A = (length A = 4 \<and> list_all (\<lambda>r. length r = 4) A)"


definition pairs_accepted :: "(int \<times> int) list \<Rightarrow> bool" where
  "pairs_accepted ps = list_all (\<lambda>(i, j). accepted_index i \<and> accepted_index j) ps"

definition pair_count :: "(int \<times> int) list \<Rightarrow> nat \<Rightarrow> nat \<Rightarrow> nat" where
  "pair_count ps a b = length (filter (\<lambda>(i, j). wrap4 i = a \<and> wrap4 j = b) ps)"

definition count_matrix :: "(int \<times> int) list \<Rightarrow> int array2" where
  "count_matrix ps = map (\<lambda>a. map (\<lambda>b. int (pair_count ps a b)) [0..<4]) [0..<4]"

text \<open>
  A concrete substitution model for the examples: the transition matrix does not depend
  on the branch length, its rows sum to one, and a site that keeps its symbol is more
  likely than one that changes it.
\<close>

definition demo_model :: jc_model where
  "demo_model = \<lparr>optimize_t = (\<lambda>S. 1), trans_matrix = (\<lambda>t.
     [[7/10, 1/10, 1/10, 1/10], [1/10, 7/10, 1/10, 1/10],
      [1/10, 1/10, 7/10, 1/10], [1/10, 1/10, 1/10, 7/10]])\<rparr>"

section \<open>build_weighted_adjacency_matrix\<close>

text \<open>
  The double loop writes the log-likelihoods into a zero matrix, cell by cell; an
  exception of \<^verbatim>\<open>compute_log_likelihood\<close> leaves both loops.  \<open>build_inner\<close> is the
  loop over \<open>j\<close> for one \<open>i\<close>, \<open>build_outer\<close> the loop over \<open>i\<close>.
\<close>

fun build_inner :: "int list list \<Rightarrow> jc_model \<Rightarrow> nat \<Rightarrow> nat list \<Rightarrow> real array2 \<Rightarrow> error + real array2" where
  "build_inner seqs model i [] A = Inr A"
| "build_inner seqs model i (j # js) A =
     (if i \<noteq> j then
        (case compute_log_likelihood (seqs ! i) (seqs ! j) model of
           Inl e \<Rightarrow> Inl e
         | Inr log_likelihood \<Rightarrow> build_inner seqs model i js (set_entry A i j log_likelihood))
      else build_inner seqs model i js (set_entry A i j 0))"

fun build_outer :: "int list list \<Rightarrow> jc_model \<Rightarrow> nat list \<Rightarrow> nat list \<Rightarrow> real array2 \<Rightarrow> error + real array2" where
  "build_outer seqs model [] js A = Inr A"
| "build_outer seqs model (i # is) js A =
     (case build_inner seqs model i js A of
        Inl e \<Rightarrow> Inl e
      | Inr A' \<Rightarrow> build_outer seqs model is js A')"

definition build_weighted_adjacency_matrix :: "int list list \<Rightarrow> jc_model \<Rightarrow> error + real array2" where
  "build_weighted_adjacency_matrix one_hot_sequences model =
     (let num_sequences = length one_hot_sequences;
          adjacency_matrix = zeros num_sequences num_sequences
      in case build_outer one_hot_sequences model [0..<num_sequences] [0..<num_sequences]
                adjacency_matrix of
           Inl e \<Rightarrow> Inl e
         | Inr A \<Rightarrow> Inr (map (map exp) A))"

text \<open>An array of \<open>r\<close> rows and \<open>c\<close> columns.\<close>

definition has_shape :: "nat \<Rightarrow> nat \<Rightarrow> 'a array2 \<Rightarrow> bool" where
  "has_shape r c A = (length A = r \<and> list_all (\<lambda>row. length row = c) A)"

text \<open>
  What the double loop leaves in cell \<open>(i, j)\<close>: zero on the diagonal, the
  log-likelihood of the pair elsewhere.
\<close>

definition cell_ok :: "int list list \<Rightarrow> jc_model \<Rightarrow> nat \<Rightarrow> nat \<Rightarrow> real \<Rightarrow> bool" where
  "cell_ok seqs model i j x =
     (if i = j then x = 0 else compute_log_likelihood (seqs ! i) (seqs ! j) model = Inr x)"

section \<open>The networkx graph\<close>

text \<open>
  In a weight matrix handed to \<^verbatim>\<open>get_mst\<close> an entry is a finite float or the
  sentinel \<^verbatim>\<open>-np.inf\<close>, the one non-finite value the code tests for.
\<close>

datatype np_float = NegInf | Fin real

text \<open>
  \<^verbatim>\<open>nx.Graph\<close> keeps a dictionary of dictionaries, \<^verbatim>\<open>G._adj[u][v]\<close> holding the
  data of the edge between \<open>u\<close> and \<open>v\<close>, here its weight.  Python dictionaries keep
  the order of insertion, and the order decides in which order the edges are listed,
  so both levels are association lists.  The nodes are the keys of the outer list.
\<close>

type_synonym graph = "(nat \<times> (nat \<times> real) list) list"

definition nodes :: "graph \<Rightarrow> nat list" where
  "nodes G = map fst G"

definition add_node :: "nat \<Rightarrow> graph \<Rightarrow> graph" where
  "add_node u G = (if u \<in> set (nodes G) then G else G @ [(u, [])])"

text \<open>
  \<^verbatim>\<open>G.add_edge(u, v, weight=w)\<close>: both endpoints become nodes if they are not yet,
  then \<^verbatim>\<open>G._adj[u][v]\<close> and \<^verbatim>\<open>G._adj[v][u]\<close> are set.  Setting an existing key keeps
  its position, a new key goes to the end, as \<open>AList.update\<close> does.
\<close>

definition add_edge :: "nat \<Rightarrow> nat \<Rightarrow> real \<Rightarrow> graph \<Rightarrow> graph" where
  "add_edge u v w G =
     (let G1 = add_node u G;
          G2 = add_node v G1;
          G3 = AList.map_entry u (AList.update v w) G2
      in AList.map_entry v (AList.update u w) G3)"

text \<open>\<^verbatim>\<open>G[u][v]\<close>, when the edge is there.\<close>

definition edge_data :: "graph \<Rightarrow> nat \<Rightarrow> nat \<Rightarrow> real option" where
  "edge_data G u v = (case map_of G u of None \<Rightarrow> None | Some nbrs \<Rightarrow> map_of nbrs v)"

text \<open>
  \<^verbatim>\<open>G.edges(data=True)\<close> walks the nodes in order and reports, for the node \<open>n\<close>,
  the neighbours that have not been walked before; every edge is reported once, a
  self-loop too.
\<close>

fun edges_from :: "nat list \<Rightarrow> graph \<Rightarrow> (nat \<times> nat \<times> real) list" where
  "edges_from seen [] = []"
| "edges_from seen ((n, nbrs) # G) =
     map (\<lambda>(nbr, w). (n, nbr, w)) (filter (\<lambda>(nbr, w). nbr \<notin> set seen) nbrs)
     @ edges_from (n # seen) G"

definition graph_edges :: "graph \<Rightarrow> (nat \<times> nat \<times> real) list" where
  "graph_edges G = edges_from [] G"

section \<open>nx.maximum_spanning_tree\<close>

text \<open>
  networkx's \<^verbatim>\<open>UnionFind\<close> is observed through the comparison
  \<^verbatim>\<open>subtrees[u] != subtrees[v]\<close> only, so a structure is the function from an element
  to the representative of its set; every element starts alone, and a union gives the
  elements of one set the representative of the other.
\<close>

type_synonym union_find = "nat \<Rightarrow> nat"

definition uf_init :: union_find where
  "uf_init = (\<lambda>x. x)"

definition uf_union :: "union_find \<Rightarrow> nat \<Rightarrow> nat \<Rightarrow> union_find" where
  "uf_union uf u v = (\<lambda>x. if uf x = uf v then uf u else uf x)"

text \<open>
  The loop of \<^verbatim>\<open>kruskal_mst_edges\<close> over the sorted edges: an edge whose endpoints
  lie in different subtrees is yielded and the subtrees are united.  \<open>kruskal_uf\<close> is
  the union-find structure the loop ends with.
\<close>

fun kruskal_loop :: "(nat \<times> nat \<times> real) list \<Rightarrow> union_find \<Rightarrow> (nat \<times> nat \<times> real) list" where
  "kruskal_loop [] subtrees = []"
| "kruskal_loop ((u, v, w) # es) subtrees =
     (if subtrees u \<noteq> subtrees v then (u, v, w) # kruskal_loop es (uf_union subtrees u v)
      else kruskal_loop es subtrees)"

fun kruskal_uf :: "(nat \<times> nat \<times> real) list \<Rightarrow> union_find \<Rightarrow> union_find" where
  "kruskal_uf [] subtrees = subtrees"
| "kruskal_uf ((u, v, w) # es) subtrees =
     (if subtrees u \<noteq> subtrees v then kruskal_uf es (uf_union subtrees u v)
      else kruskal_uf es subtrees)"

text \<open>
  For a maximum spanning tree the edges are sorted by decreasing weight with Python's
  stable sort: edges of equal weight keep the order of \<^verbatim>\<open>G.edges\<close>.
\<close>

definition sorted_edges :: "graph \<Rightarrow> (nat \<times> nat \<times> real) list" where
  "sorted_edges G = sort_key (\<lambda>(u, v, w). - w) (graph_edges G)"

definition kruskal_mst_edges :: "graph \<Rightarrow> (nat \<times> nat \<times> real) list" where
  "kruskal_mst_edges G = kruskal_loop (sorted_edges G) uf_init"

text \<open>
  \<^verbatim>\<open>nx.maximum_spanning_tree(G)\<close>: a new graph with the nodes of \<open>G\<close>, in their
  order, and the edges Kruskal's algorithm yields.
\<close>

definition maximum_spanning_tree :: "graph \<Rightarrow> graph" where
  "maximum_spanning_tree G =
     (let edges = kruskal_mst_edges G;
          T = map (\<lambda>n. (n, [])) (nodes G)
      in fold (\<lambda>(u, v, w). add_edge u v w) edges T)"

section \<open>get_mst\<close>

text \<open>
  The double loop of \<^verbatim>\<open>get_mst\<close> over \<^verbatim>\<open>range(n_nodes)\<close>, for \<open>j\<close> and for
  \<open>i\<close>.  Reading \<^verbatim>\<open>W[i, j]\<close> raises when the matrix has too few columns.
\<close>

fun get_mst_inner :: "np_float array2 \<Rightarrow> nat \<Rightarrow> nat list \<Rightarrow> graph \<Rightarrow> error + graph" where
  "get_mst_inner W i [] G = Inr G"
| "get_mst_inner W i (j # js) G =
     (case np_get W (int i) (int j) of
        Inl e \<Rightarrow> Inl e
      | Inr NegInf \<Rightarrow> get_mst_inner W i js G
      | Inr (Fin w) \<Rightarrow> get_mst_inner W i js (add_edge i j w G))"

fun get_mst_outer :: "np_float array2 \<Rightarrow> nat list \<Rightarrow> nat list \<Rightarrow> graph \<Rightarrow> error + graph" where
  "get_mst_outer W [] js G = Inr G"
| "get_mst_outer W (i # is) js G =
     (case get_mst_inner W i js G of
        Inl e \<Rightarrow> Inl e
      | Inr G' \<Rightarrow> get_mst_outer W is js G')"

text \<open>
  The graph \<open>G\<close> of \<^verbatim>\<open>get_mst\<close> before the spanning tree is taken.  \<open>n_nodes\<close> is
  \<^verbatim>\<open>W.shape[0] - 1\<close>; for a matrix without rows that is \<open>-1\<close> and the range is empty,
  as it is for the natural number \<open>0 - 1 = 0\<close>.
\<close>

definition get_mst_graph :: "np_float array2 \<Rightarrow> error + graph" where
  "get_mst_graph W =
     (let n_nodes = length W - 1
      in get_mst_outer W [0..<n_nodes] [0..<n_nodes] [])"

definition get_mst :: "np_float array2 \<Rightarrow> error + graph" where
  "get_mst weighted_adj_matrix =
     (case get_mst_graph weighted_adj_matrix of
        Inl e \<Rightarrow> Inl e
      | Inr G \<Rightarrow> Inr (maximum_spanning_tree G))"

section \<open>generate_unweighted_adj_matrix\<close>

text \<open>
  The loop \<^verbatim>\<open>for i in range(edges.shape[1])\<close>; writing outside the matrix raises.
\<close>

fun adj_loop :: "(nat \<times> nat) list \<Rightarrow> int array2 \<Rightarrow> error + int array2" where
  "adj_loop [] adj_matrix = Inr adj_matrix"
| "adj_loop ((u, v) # es) adj_matrix =
     (if u < length adj_matrix \<and> v < length adj_matrix
      then adj_loop es (set_entry (set_entry adj_matrix u v 1) v u 1)
      else Inl IndexError)"

text \<open>
  \<^verbatim>\<open>np.array(list(mst.edges)).T\<close> has two rows when the tree has an edge.  Of an
  empty list numpy makes an array of shape \<open>(0,)\<close>, its transpose has that shape too,
  and \<^verbatim>\<open>edges.shape[1]\<close> raises \<^verbatim>\<open>IndexError\<close>.
\<close>

definition edges_to_adj_matrix :: "(nat \<times> nat) list \<Rightarrow> nat \<Rightarrow> error + int array2" where
  "edges_to_adj_matrix edges num_nodes =
     (let adj_matrix = zeros num_nodes num_nodes
      in if edges = [] then Inl IndexError else adj_loop edges adj_matrix)"

definition generate_unweighted_adj_matrix :: "graph \<Rightarrow> nat \<Rightarrow> error + int array2" where
  "generate_unweighted_adj_matrix mst num_nodes =
     edges_to_adj_matrix (map (\<lambda>(u, v, w). (u, v)) (graph_edges mst)) num_nodes"

text \<open>The number of non-zero entries, \<^verbatim>\<open>np.count_nonzero\<close>.\<close>

definition count_nonzero :: "int array2 \<Rightarrow> nat" where
  "count_nonzero A = length (filter (\<lambda>x. x \<noteq> 0) (concat A))"

text \<open>Lines 152 to 154 of \<^verbatim>\<open>generate_data\<close>: the tree, then its adjacency matrix.\<close>

definition mst_adjacency :: "np_float array2 \<Rightarrow> nat \<Rightarrow> error + int array2" where
  "mst_adjacency weighted_adj_matrix num_nodes =
     (case get_mst weighted_adj_matrix of
        Inl e \<Rightarrow> Inl e
      | Inr mst \<Rightarrow> generate_unweighted_adj_matrix mst num_nodes)"

text \<open>A weight matrix over four sequences for the examples; the last index is the root.\<close>

definition demo_weights :: "np_float array2" where
  "demo_weights =
     [[Fin 1, Fin (1/2), Fin (1/4), Fin 9],
      [Fin (1/2), Fin 1, Fin (1/4), Fin 9],
      [Fin (1/4), Fin (1/4), Fin 1, Fin 9],
      [Fin 9, Fin 9, Fin 9, Fin 1]]"

section \<open>Vocabulary for the graph and the spanning tree\<close>

text \<open>
  A graph is well formed when its node keys and the keys of every adjacency dictionary
  are distinct and the edge data is the same in both directions; \<open>adj_of\<close> is
  \<^verbatim>\<open>G._adj[u]\<close>, empty for a missing node.
\<close>

definition wf_graph :: "graph \<Rightarrow> bool" where
  "wf_graph G =
     (distinct (nodes G) \<and>
      (\<forall>u nbrs. map_of G u = Some nbrs \<longrightarrow> distinct (map fst nbrs)) \<and>
      (\<forall>u v w. edge_data G u v = Some w \<longrightarrow> edge_data G v u = Some w))"

definition adj_of :: "graph \<Rightarrow> nat \<Rightarrow> (nat \<times> real) list" where
  "adj_of G u = (case map_of G u of None \<Rightarrow> [] | Some nbrs \<Rightarrow> nbrs)"

text \<open>
  One pass of the body of the double loop of \<^verbatim>\<open>get_mst\<close> when the read succeeds.
\<close>

definition mst_step :: "np_float array2 \<Rightarrow> nat \<Rightarrow> nat \<Rightarrow> graph \<Rightarrow> graph" where
  "mst_step W i j G = (case W ! i ! j of NegInf \<Rightarrow> G | Fin w \<Rightarrow> add_edge i j w G)"

text \<open>
  The entry of the weight matrix that decides the data of the edge between \<open>a\<close> and
  \<open>b\<close>: after the columns below \<open>m\<close> of row \<open>i\<close> (\<open>row_val\<close>), after the rows
  below \<open>k\<close> for a pair \<open>lo \<le> hi\<close> (\<open>pair_val\<close>) and for any pair below \<open>n\<close>
  (\<open>rows_val\<close>).  A later write wins and \<open>-\<infinity>\<close> writes nothing; \<open>some_fin\<close> reads a
  finite entry as edge data and keeps the earlier data otherwise.
\<close>

definition row_val :: "np_float array2 \<Rightarrow> nat \<Rightarrow> nat \<Rightarrow> nat \<Rightarrow> nat \<Rightarrow> np_float" where
  "row_val W i m a b =
     (if a = i \<and> b < m then W ! i ! b else if b = i \<and> a < m then W ! i ! a else NegInf)"

definition pair_val :: "np_float array2 \<Rightarrow> nat \<Rightarrow> nat \<Rightarrow> nat \<Rightarrow> np_float" where
  "pair_val W k lo hi =
     (if hi < k then (if W ! hi ! lo = NegInf then W ! lo ! hi else W ! hi ! lo)
      else if lo < k then W ! lo ! hi
      else NegInf)"

definition rows_val :: "np_float array2 \<Rightarrow> nat \<Rightarrow> nat \<Rightarrow> nat \<Rightarrow> nat \<Rightarrow> np_float" where
  "rows_val W n k a b =
     (if a < n then (if b < n then (if a \<le> b then pair_val W k a b else pair_val W k b a) else NegInf)
      else NegInf)"

definition some_fin :: "np_float \<Rightarrow> real option \<Rightarrow> real option" where
  "some_fin x d = (case x of NegInf \<Rightarrow> d | Fin w \<Rightarrow> Some w)"

text \<open>
  The data of the edge between \<open>lo \<le> hi\<close> in the finished graph: \<open>W[hi][lo]\<close>,
  written last, unless it is the sentinel, and then \<open>W[lo][hi]\<close>; no edge when both are
  the sentinel.  For \<open>lo = hi\<close> this is the self-loop from \<open>W[lo][lo]\<close>.
\<close>

definition expected_edge :: "np_float array2 \<Rightarrow> nat \<Rightarrow> nat \<Rightarrow> real option" where
  "expected_edge W lo hi =
     (case W ! hi ! lo of
        Fin w \<Rightarrow> Some w
      | NegInf \<Rightarrow> (case W ! lo ! hi of Fin w \<Rightarrow> Some w | NegInf \<Rightarrow> None))"

text \<open>The nodes listed before the first occurrence of \<open>u\<close>.\<close>

definition before :: "nat list \<Rightarrow> nat \<Rightarrow> nat set" where
  "before xs u = set (takeWhile (\<lambda>x. x \<noteq> u) xs)"

text \<open>
  A weighted edge as \<^verbatim>\<open>G.edges(data=True)\<close> reports it.  Two nodes are linked by an
  edge in either direction, \<open>reach\<close> is connection by a path, and a set of edges is a
  forest when no edge joins two nodes that the other edges connect already (no cycle,
  no self-loop, no pair of parallel edges).  \<open>spans V E\<close>: the edges connect all nodes
  of \<open>V\<close>.
\<close>

type_synonym wedge = "nat \<times> nat \<times> real"

definition edge_weight :: "wedge \<Rightarrow> real" where
  "edge_weight e = snd (snd e)"

definition links :: "wedge set \<Rightarrow> (nat \<times> nat) set" where
  "links E = {(u, v). \<exists>w. (u, v, w) \<in> E \<or> (v, u, w) \<in> E}"

definition reach :: "wedge set \<Rightarrow> (nat \<times> nat) set" where
  "reach E = (links E)\<^sup>*"

definition forest :: "wedge set \<Rightarrow> bool" where
  "forest T = (\<forall>(u, v, w)\<in>T. (u, v) \<notin> reach (T - {(u, v, w)}))"

definition spans :: "nat set \<Rightarrow> wedge set \<Rightarrow> bool" where
  "spans V E = (\<forall>x\<in>V. \<forall>y\<in>V. (x, y) \<in> reach E)"

text \<open>A union-find structure represents the components of an edge set.\<close>

definition uf_rep :: "union_find \<Rightarrow> wedge set \<Rightarrow> bool" where
  "uf_rep uf E = (\<forall>x y. uf x = uf y \<longleftrightarrow> (x, y) \<in> reach E)"

text \<open>
  The two steps of \<^verbatim>\<open>maximum_spanning_tree\<close> after Kruskal's loop: the graph with
  the nodes of \<open>G\<close> and no edge, and the edges added one by one.  Two reported edges
  are on the same pair when they have the same endpoints in either order.
\<close>

definition empty_tree :: "graph \<Rightarrow> graph" where
  "empty_tree G = map (\<lambda>n. (n, [])) (nodes G)"

definition add_edges :: "wedge list \<Rightarrow> graph \<Rightarrow> graph" where
  "add_edges es T = fold (\<lambda>(u, v, w). add_edge u v w) es T"

definition same_pair :: "wedge \<Rightarrow> wedge \<Rightarrow> bool" where
  "same_pair e e' = ((fst e = fst e' \<and> fst (snd e) = fst (snd e')) \<or>
                     (fst e = fst (snd e') \<and> fst (snd e) = fst e'))"

text \<open>
  The graph is connected (networkx does not call a graph without nodes connected); a
  spanning tree of \<open>G\<close> is a forest of edges of \<open>G\<close> that connects all its nodes; the
  weight of a set of edges.
\<close>

definition graph_connected :: "graph \<Rightarrow> bool" where
  "graph_connected G = (nodes G \<noteq> [] \<and> spans (set (nodes G)) (set (graph_edges G)))"

definition spanning_tree :: "graph \<Rightarrow> wedge set \<Rightarrow> bool" where
  "spanning_tree G T = (T \<subseteq> set (graph_edges G) \<and> forest T \<and> spans (set (nodes G)) T)"

definition total_weight :: "wedge set \<Rightarrow> real" where
  "total_weight T = sum edge_weight T"

text \<open>
  The graph and the tree of \<open>demo_weights\<close>, and a weight matrix that is not symmetric
  and holds the sentinel, with its graph.
\<close>

definition demo_graph :: graph where
  "demo_graph = [(0, [(0, 1), (1, 1/2), (2, 1/4)]), (1, [(0, 1/2), (1, 1), (2, 1/4)]),
                 (2, [(0, 1/4), (1, 1/4), (2, 1)])]"

definition demo_tree :: graph where
  "demo_tree = [(0, [(1, 1/2), (2, 1/4)]), (1, [(0, 1/2)]), (2, [(0, 1/4)])]"

definition asym_weights :: "np_float array2" where
  "asym_weights = [[Fin 1, Fin 2, Fin 0], [Fin 3, NegInf, Fin 0], [Fin 0, Fin 0, Fin 0]]"

definition asym_graph :: graph where
  "asym_graph = [(0, [(0, 1), (1, 3)]), (1, [(0, 3)])]"

section \<open>one_hot and the data pipeline\<close>

definition bases :: "char \<rightharpoonup> nat" where
  "bases = [CHR ''A'' \<mapsto> 0, CHR ''C'' \<mapsto> 1, CHR ''G'' \<mapsto> 2, CHR ''T'' \<mapsto> 3]"

text \<open>
  \<^verbatim>\<open>one_hot\<close>: Python's \<^verbatim>\<open>max\<close> of no sequence raises \<^verbatim>\<open>ValueError\<close>; a letter
  that is not a key of \<^verbatim>\<open>bases\<close> is skipped and leaves its row of four zeros, as
  does a position beyond the end of a shorter sequence.
\<close>

definition one_hot :: "string list \<Rightarrow> error + int list list list" where
  "one_hot sequences =
     (if sequences = [] then Inl ValueError
      else
        let max_length = Max (set (map length sequences));
            encoded = replicate (length sequences) (replicate max_length (replicate 4 0))
        in Inr (fold (\<lambda>(i, seq).
                  fold (\<lambda>(j, nucleotide) enc.
                          case bases nucleotide of
                            None \<Rightarrow> enc
                          | Some b \<Rightarrow> enc[i := (enc ! i)[j := (enc ! i ! j)[b := 1]]])
                       (enumerate 0 seq))
                  (enumerate 0 sequences) encoded))"

text \<open>
  \<^verbatim>\<open>np.argmax\<close> along the last axis: the first position of the largest entry.  The
  rows it is applied to have four entries.
\<close>

definition argmax :: "int list \<Rightarrow> int" where
  "argmax v =
     (case v of
        [] \<Rightarrow> 0
      | x # xs \<Rightarrow>
          int (fst (fold (\<lambda>(k, y) (best, m). if m < y then (k, y) else (best, m))
                         (enumerate 1 xs) (0, x))))"

text \<open>
  \<^verbatim>\<open>create_tree\<close>, \<^verbatim>\<open>simulate_seq\<close> and the constructor \<^verbatim>\<open>JukesCantor\<close> are
  imported from modules that are not part of the source; they are the fields of an
  environment.  The first two draw random numbers: they take the state of the random
  generator and return the new state beside their result.  Of the pairs they return
  (\<^verbatim>\<open>tree, opt\<close> and \<^verbatim>\<open>sim_seq, prob\<close>) only the first components are used.
\<close>

record ('tree, 'rng) env =
  create_tree :: "nat \<Rightarrow> real \<Rightarrow> 'rng \<Rightarrow> 'tree \<times> 'rng"
  simulate_seq :: "'tree \<Rightarrow> jc_model \<Rightarrow> nat \<Rightarrow> 'rng \<Rightarrow> string list \<times> 'rng"
  JukesCantor :: "real \<Rightarrow> jc_model"

definition generate_node_features ::
  "('tree, 'rng) env \<Rightarrow> nat \<Rightarrow> real \<Rightarrow> 'rng \<Rightarrow> (error + int list list) \<times> 'rng" where
  "generate_node_features env n_leaves alpha rng =
     (let (tree, rng1) = create_tree env n_leaves (1/10) rng;
          evo_model = JukesCantor env alpha;
          (sim_seq, rng2) = simulate_seq env tree evo_model 10 rng1
      in (case one_hot sim_seq of
            Inl e \<Rightarrow> Inl e
          | Inr encoded_seq \<Rightarrow> Inr (map (map argmax) encoded_seq),
          rng2))"

text \<open>
  \<^verbatim>\<open>generate_weighted_adj_matrix\<close> calls \<^verbatim>\<open>generate_node_features\<close> itself and
  returns the weight matrix only.
\<close>

definition generate_weighted_adj_matrix ::
  "('tree, 'rng) env \<Rightarrow> nat \<Rightarrow> real \<Rightarrow> 'rng \<Rightarrow> (error + real array2) \<times> 'rng" where
  "generate_weighted_adj_matrix env n_leaves alpha rng =
     (let (encoded_seq, rng1) = generate_node_features env n_leaves alpha rng;
          model = JukesCantor env alpha
      in (case encoded_seq of
            Inl e \<Rightarrow> Inl e
          | Inr encoded_seq \<Rightarrow> build_weighted_adjacency_matrix encoded_seq model,
          rng1))"

text \<open>
  \<^verbatim>\<open>scipy.sparse.csr_matrix\<close> of a dense matrix: the non-zero entries row by row, their
  column indices, and for every row the position where it starts.
\<close>

record csr =
  data :: "int list"
  indices :: "nat list"
  indptr :: "nat list"
  shape :: "nat \<times> nat"

definition shape1 :: "'a array2 \<Rightarrow> nat" where
  "shape1 A = (case A of [] \<Rightarrow> 0 | row # _ \<Rightarrow> length row)"

definition csr_matrix :: "int array2 \<Rightarrow> csr" where
  "csr_matrix A =
     \<lparr>data = concat (map (filter (\<lambda>x. x \<noteq> 0)) A),
      indices = concat (map (\<lambda>row. map fst (filter (\<lambda>(j, x). x \<noteq> 0) (enumerate 0 row))) A),
      indptr = map (\<lambda>k. length (concat (map (filter (\<lambda>x. x \<noteq> 0)) (take k A)))) [0..<Suc (length A)],
      shape = (length A, shape1 A)\<rparr>"

text \<open>
  \<^verbatim>\<open>generate_data\<close>.  The node features come from a first call of
  \<^verbatim>\<open>generate_node_features\<close>; the weight matrix comes from
  \<^verbatim>\<open>generate_weighted_adj_matrix\<close>, which runs on the state of the random generator
  the first call left; an exception ends the run where it is raised.  A finite float
  matrix is handed to \<^verbatim>\<open>get_mst\<close> as it is.  The result holds the lines printed,
  the sparse matrix and the node features.
\<close>

definition generate_data ::
  "('tree, 'rng) env \<Rightarrow> nat \<Rightarrow> real \<Rightarrow> 'rng \<Rightarrow> (error + string list \<times> csr \<times> int list list) \<times> 'rng" where
  "generate_data env n_leaves alpha rng =
     (case generate_node_features env n_leaves alpha rng of
        (Inl e, rng1) \<Rightarrow> (Inl e, rng1)
      | (Inr node_features, rng1) \<Rightarrow>
          (case generate_weighted_adj_matrix env n_leaves alpha rng1 of
             (Inl e, rng2) \<Rightarrow> (Inl e, rng2)
           | (Inr weighted_adj_matrix, rng2) \<Rightarrow>
               (case mst_adjacency (map (map Fin) weighted_adj_matrix) n_leaves of
                  Inl e \<Rightarrow> (Inl e, rng2)
                | Inr adj_matrix \<Rightarrow>
                    (Inr ((if length node_features \<noteq> length adj_matrix
                           then [''Inconsistant shape between node_features and adjancy matrix.'']
                           else []) @
                          (if length adj_matrix \<noteq> shape1 adj_matrix
                           then [''Invalid adjancy matrix.''] else []),
                          csr_matrix adj_matrix, node_features),
                     rng2))))"

text \<open>
  The adjacency matrix the pipeline derives from a given set of encoded sequences:
  weight matrix, spanning tree, dense matrix, sparse matrix.
\<close>

definition adjacency_of_features :: "jc_model \<Rightarrow> int list list \<Rightarrow> nat \<Rightarrow> error + csr" where
  "adjacency_of_features model features num_nodes =
     (case build_weighted_adjacency_matrix features model of
        Inl e \<Rightarrow> Inl e
      | Inr W \<Rightarrow>
          (case mst_adjacency (map (map Fin) W) num_nodes of
             Inl e \<Rightarrow> Inl e
           | Inr adj_matrix \<Rightarrow> Inr (csr_matrix adj_matrix)))"

text \<open>
  An environment for the examples.  The state of the random generator is the number of
  simulations run so far; every simulation returns four sequences of \<open>ndata\<close> equal
  letters, and the second sequence differs between the first simulation and the later
  ones.
\<close>

definition demo_env :: "(unit, nat) env" where
  "demo_env =
     \<lparr>create_tree = (\<lambda>n_leaves scale rng. ((), rng)),
      simulate_seq = (\<lambda>tree model ndata rng.
         (map (replicate ndata)
            (if rng = 0 then [CHR ''A'', CHR ''A'', CHR ''T'', CHR ''A'']
             else [CHR ''A'', CHR ''T'', CHR ''T'', CHR ''A'']),
          Suc rng)),
      JukesCantor = (\<lambda>alpha. demo_model)\<rparr>"

text \<open>The node features of the first and of the second simulation of \<open>demo_env\<close>.\<close>

definition features1 :: "int list list" where
  "features1 = [replicate 10 0, replicate 10 0, replicate 10 3, replicate 10 0]"

definition features2 :: "int list list" where
  "features2 = [replicate 10 0, replicate 10 3, replicate 10 3, replicate 10 0]"

section \<open>Properties of compute_log_likelihood\<close>

lemma np_index_4: "np_index 4 k = (if accepted_index k then Inr (wrap4 k) else Inl IndexError)"
  by (auto simp: np_index_def accepted_index_def wrap4_def)

lemma wrap4_less: "accepted_index k \<Longrightarrow> wrap4 k < 4"
  by (auto simp: accepted_index_def wrap4_def)

lemma is_4x4_nth: "is_4x4 A \<Longrightarrow> a < 4 \<Longrightarrow> length (A ! a) = 4"
  by (auto simp: is_4x4_def list_all_length)

lemma is_4x4_set_entry: "is_4x4 A \<Longrightarrow> is_4x4 (set_entry A a b v)"
proof -
  assume A: "is_4x4 A"
  have "length (A[a := (A ! a)[b := v]] ! n) = 4" if "n < 4" for n
  proof (cases "a = n")
    case True
    with A that show ?thesis by (simp add: is_4x4_def list_all_length)
  next
    case False
    with A that show ?thesis by (simp add: is_4x4_def list_all_length)
  qed
  with A show ?thesis by (simp add: is_4x4_def set_entry_def list_all_length)
qed

lemma set_entry_nth:
  "is_4x4 A \<Longrightarrow> a < 4 \<Longrightarrow> b < 4 \<Longrightarrow> a' < 4 \<Longrightarrow> b' < 4 \<Longrightarrow>
   set_entry A a b v ! a' ! b' = (if a' = a \<and> b' = b then v else A ! a' ! b')"
  by (auto simp: set_entry_def nth_list_update is_4x4_def list_all_length)

lemma count_loop_rejects: "\<not> pairs_accepted ps \<Longrightarrow> count_loop ps S = Inl IndexError"
  by (induction ps S rule: count_loop.induct) (auto simp: pairs_accepted_def np_index_4)

lemma count_loop_counts:
  "pairs_accepted ps \<Longrightarrow> is_4x4 S \<Longrightarrow>
   \<exists>S'. count_loop ps S = Inr S' \<and> is_4x4 S' \<and>
     (\<forall>a<4. \<forall>b<4. S' ! a ! b = S ! a ! b + int (pair_count ps a b))"
proof (induction ps S rule: count_loop.induct)
  case (1 S)
  then show ?case by (simp add: pair_count_def)
next
  case (2 i j ps S)
  let ?S1 = "set_entry S (wrap4 i) (wrap4 j) (S ! wrap4 i ! wrap4 j + 1)"
  from "2.prems" have acc: "accepted_index i" "accepted_index j" and rest: "pairs_accepted ps"
    by (auto simp: pairs_accepted_def)
  have S1: "is_4x4 ?S1" using "2.prems"(2) by (rule is_4x4_set_entry)
  from "2.IH"[of "wrap4 i" "wrap4 j"] acc rest S1
  obtain S' where S': "count_loop ps ?S1 = Inr S'" "is_4x4 S'"
    "\<forall>a<4. \<forall>b<4. S' ! a ! b = ?S1 ! a ! b + int (pair_count ps a b)"
    by (auto simp: np_index_4)
  have "count_loop ((i, j) # ps) S = Inr S'" using acc S'(1) by (simp add: np_index_4)
  moreover have "\<forall>a<4. \<forall>b<4. S' ! a ! b = S ! a ! b + int (pair_count ((i, j) # ps) a b)"
    using S'(3) "2.prems"(2) acc
    by (auto simp: set_entry_nth wrap4_less pair_count_def)
  ultimately show ?case using S'(2) by blast
qed


lemma np_get_4x4:
  "is_4x4 P \<Longrightarrow> np_get P i j =
     (if accepted_index i \<and> accepted_index j then Inr (P ! wrap4 i ! wrap4 j) else Inl IndexError)"
  by (auto simp: np_get_def is_4x4_def list_all_length np_index_4 wrap4_less)


lemma loglik_loop_sum:
  "is_4x4 P \<Longrightarrow> pairs_accepted ps \<Longrightarrow>
   loglik_loop P ps acc = Inr (acc + (\<Sum>(i, j)\<leftarrow>ps. ln (P ! wrap4 i ! wrap4 j)))"
  by (induction P ps acc rule: loglik_loop.induct) (auto simp: np_get_4x4 pairs_accepted_def)


lemma is_4x4_zeros: "is_4x4 (zeros 4 4 :: int array2)"
  by (simp add: is_4x4_def zeros_def list_all_length)

lemma is_4x4_count_matrix: "is_4x4 (count_matrix ps)"
  by (simp add: is_4x4_def count_matrix_def list_all_length)

lemma count_matrix_nth: "a < 4 \<Longrightarrow> b < 4 \<Longrightarrow> count_matrix ps ! a ! b = int (pair_count ps a b)"
  by (simp add: count_matrix_def)

lemma is_4x4_eqI:
  assumes "is_4x4 A" "is_4x4 B" "\<And>a b. a < 4 \<Longrightarrow> b < 4 \<Longrightarrow> A ! a ! b = B ! a ! b"
  shows "A = B"
proof (rule nth_equalityI)
  show "length A = length B" using assms(1,2) by (simp add: is_4x4_def)
next
  fix a assume "a < length A"
  then have a: "a < 4" using assms(1) by (simp add: is_4x4_def)
  show "A ! a = B ! a"
  proof (rule nth_equalityI)
    show "length (A ! a) = length (B ! a)" using assms(1,2) a by (simp add: is_4x4_nth)
  next
    fix b assume "b < length (A ! a)"
    then have "b < 4" using assms(1) a by (simp add: is_4x4_nth)
    then show "A ! a ! b = B ! a ! b" using a by (rule assms(3)[rotated])
  qed
qed

lemma count_loop_count_matrix:
  assumes "pairs_accepted ps"
  shows "count_loop ps (zeros 4 4) = Inr (count_matrix ps)"
proof -
  from count_loop_counts[OF assms is_4x4_zeros]
  obtain S' where S': "count_loop ps (zeros 4 4) = Inr S'" "is_4x4 S'"
    "\<forall>a<4. \<forall>b<4. S' ! a ! b = (zeros 4 4 :: int array2) ! a ! b + int (pair_count ps a b)"
    by blast
  have "S' = count_matrix ps"
  proof (rule is_4x4_eqI[OF S'(2) is_4x4_count_matrix])
    fix a b :: nat assume "a < 4" "b < 4"
    then show "S' ! a ! b = count_matrix ps ! a ! b"
      using S'(3) by (simp add: count_matrix_nth zeros_def)
  qed
  with S'(1) show ?thesis by simp
qed

lemma pairs_accepted_zip:
  "length seq1 = length seq2 \<Longrightarrow>
   pairs_accepted (zip seq1 seq2) = (list_all accepted_index seq1 \<and> list_all accepted_index seq2)"
  by (induction seq1 seq2 rule: list_induct2) (auto simp: pairs_accepted_def)



lemma compute_log_likelihood_closed_form:
  assumes len: "length seq1 = length seq2" and shape: "\<And>t. is_4x4 (trans_matrix model t)"
  shows "compute_log_likelihood seq1 seq2 model =
     (if list_all accepted_index seq1 \<and> list_all accepted_index seq2
      then Inr (\<Sum>(i, j)\<leftarrow>zip seq1 seq2.
             ln (trans_matrix model (optimize_t model (count_matrix (zip seq1 seq2))) ! wrap4 i ! wrap4 j))
      else Inl IndexError)"
proof (cases "pairs_accepted (zip seq1 seq2)")
  case True
  then show ?thesis
    using len pairs_accepted_zip[OF len]
    by (simp add: compute_log_likelihood_def count_loop_count_matrix loglik_loop_sum[OF shape])
next
  case False
  then show ?thesis
    using len pairs_accepted_zip[OF len]
    by (simp add: compute_log_likelihood_def count_loop_rejects)
qed

lemma is_4x4_demo: "is_4x4 (trans_matrix demo_model t)"
  by (simp add: demo_model_def is_4x4_def)



subsection \<open>Claim C6\<close>



subsection \<open>Claim C7\<close>



text \<open>
  The encoding does not validate either: \<^verbatim>\<open>one_hot\<close> leaves the row of a letter outside
  \<^verbatim>\<open>ACGT\<close> at zero, and \<^verbatim>\<open>argmax\<close> reads that row as the symbol 0.
\<close>

lemma one_hot_unknown_letter:
  "one_hot [''AX''] = Inr [[[1, 0, 0, 0], [0, 0, 0, 0]]] \<and> map argmax [[1, 0, 0, 0], [0, 0, 0, 0]] = [0, 0]"
  by code_simp

subsection \<open>Claim C8\<close>




section \<open>Properties of build_weighted_adjacency_matrix\<close>

lemma has_shape_nth: "has_shape r c A \<Longrightarrow> i < r \<Longrightarrow> length (A ! i) = c"
  by (auto simp: has_shape_def list_all_length)

lemma has_shape_zeros: "has_shape r c (zeros r c)"
  by (simp add: has_shape_def zeros_def list_all_length)

lemma has_shape_set_entry: "has_shape r c A \<Longrightarrow> has_shape r c (set_entry A i j v)"
proof -
  assume A: "has_shape r c A"
  have "length (A[i := (A ! i)[j := v]] ! k) = c" if "k < r" for k
  proof (cases "i = k")
    case True
    with A that show ?thesis by (simp add: has_shape_def list_all_length)
  next
    case False
    with A that show ?thesis by (simp add: has_shape_def list_all_length)
  qed
  with A show ?thesis by (simp add: has_shape_def set_entry_def list_all_length)
qed

lemma set_entry_get:
  "has_shape r c A \<Longrightarrow> i < r \<Longrightarrow> j < c \<Longrightarrow> i' < r \<Longrightarrow> j' < c \<Longrightarrow>
   set_entry A i j v ! i' ! j' = (if i' = i \<and> j' = j then v else A ! i' ! j')"
  by (auto simp: set_entry_def nth_list_update has_shape_def list_all_length)

lemma cell_ok_unique: "cell_ok seqs model i j x \<Longrightarrow> cell_ok seqs model i j y \<Longrightarrow> x = y"
  by (auto simp: cell_ok_def split: if_splits)






subsection \<open>Claim C3\<close>



section \<open>Properties of generate_unweighted_adj_matrix\<close>

lemmas mst_eval = mst_adjacency_def get_mst_def get_mst_graph_def upt_rec np_get_def np_index_def
  add_edge_def add_node_def nodes_def maximum_spanning_tree_def kruskal_mst_edges_def
  sorted_edges_def graph_edges_def uf_init_def uf_union_def generate_unweighted_adj_matrix_def
  edges_to_adj_matrix_def zeros_def set_entry_def

lemma get_mst_single_row: "get_mst [row] = Inr []"
  by (simp add: get_mst_def get_mst_graph_def maximum_spanning_tree_def kruskal_mst_edges_def
      sorted_edges_def graph_edges_def nodes_def)

lemma get_mst_two_rows:
  "get_mst [[Fin 1, Fin (1/2)], [Fin (1/2), Fin 1]] = Inr [(0, [])]"
  by (simp add: mst_eval)


text \<open>
  For an edge list that is not empty the loop does what its comment says: it returns
  when every endpoint is below \<open>num_nodes\<close> and raises \<^verbatim>\<open>IndexError\<close> otherwise, the
  matrix is symmetric with entries 0 and 1, the entry \<open>(i, j)\<close> is 1 exactly for the
  edges in either direction, and a list of \<open>k\<close> edges without self-loops and without
  repeated pairs gives \<open>2 * k\<close> non-zero entries.
\<close>

lemma if_chain_or: "(if P then a else if Q then a else x) = (if Q \<or> P then a else x)"
  by simp

lemma adj_loop_entries:
  assumes "has_shape n n A" "\<forall>(u, v)\<in>set es. u < n \<and> v < n"
  shows "\<exists>A'. adj_loop es A = Inr A' \<and> has_shape n n A' \<and>
     (\<forall>i<n. \<forall>j<n. A' ! i ! j = (if (i, j) \<in> set es \<or> (j, i) \<in> set es then 1 else A ! i ! j))"
  using assms
proof (induction es arbitrary: A)
  case Nil
  then show ?case by simp
next
  case (Cons e es)
  obtain u v where e: "e = (u, v)" by (cases e)
  from Cons.prems e have uv: "u < n" "v < n" and rest: "\<forall>(u, v)\<in>set es. u < n \<and> v < n"
    by auto
  define A0 where "A0 = set_entry A u v 1"
  define A1 where "A1 = set_entry A0 v u 1"
  have sh0: "has_shape n n A0" unfolding A0_def using Cons.prems(1) by (rule has_shape_set_entry)
  have sh1: "has_shape n n A1" unfolding A1_def using sh0 by (rule has_shape_set_entry)
  from Cons.IH[OF sh1 rest] obtain A' where A': "adj_loop es A1 = Inr A'" "has_shape n n A'"
    "\<forall>i<n. \<forall>j<n. A' ! i ! j = (if (i, j) \<in> set es \<or> (j, i) \<in> set es then 1 else A1 ! i ! j)"
    by blast
  have len: "length A = n" using Cons.prems(1) by (simp add: has_shape_def)
  have run: "adj_loop (e # es) A = Inr A'" using A'(1) uv len by (simp add: e A1_def A0_def)
  have A1: "A1 ! i ! j = (if (i = u \<and> j = v) \<or> (i = v \<and> j = u) then 1 else A ! i ! j)"
    if "i < n" "j < n" for i j
  proof -
    have e1: "A1 ! i ! j = (if i = v \<and> j = u then 1 else A0 ! i ! j)"
      unfolding A1_def by (rule set_entry_get[OF sh0 uv(2) uv(1) that])
    have e0: "A0 ! i ! j = (if i = u \<and> j = v then 1 else A ! i ! j)"
      unfolding A0_def by (rule set_entry_get[OF Cons.prems(1) uv(1) uv(2) that])
    show ?thesis unfolding e1 e0 by (rule if_chain_or)
  qed
  have "A' ! i ! j = (if (i, j) \<in> set (e # es) \<or> (j, i) \<in> set (e # es) then 1 else A ! i ! j)"
    if "i < n" "j < n" for i j
  proof -
    from A'(3) that have "A' ! i ! j = (if (i, j) \<in> set es \<or> (j, i) \<in> set es then 1 else A1 ! i ! j)"
      by blast
    then show ?thesis unfolding A1[OF that] by (auto simp: e)
  qed
  with run A'(2) show ?case by blast
qed

lemma adj_loop_out_of_range:
  assumes "has_shape n n A" "\<not> (\<forall>(u, v)\<in>set es. u < n \<and> v < n)"
  shows "adj_loop es A = Inl IndexError"
  using assms
proof (induction es arbitrary: A)
  case Nil
  then show ?case by simp
next
  case (Cons e es)
  obtain u v where e: "e = (u, v)" by (cases e)
  have len: "length A = n" using Cons.prems(1) by (simp add: has_shape_def)
  show ?case
  proof (cases "u < n \<and> v < n")
    case False
    then show ?thesis using len by (auto simp: e)
  next
    case True
    with Cons.prems(2) have rest: "\<not> (\<forall>(u, v)\<in>set es. u < n \<and> v < n)" by (auto simp: e)
    have "has_shape n n (set_entry (set_entry A u v 1) v u 1)"
      by (intro has_shape_set_entry Cons.prems(1))
    from Cons.IH[OF this rest] True len show ?thesis by (simp add: e)
  qed
qed

lemma length_filter_concat:
  "length (filter P (concat A)) = (\<Sum>r\<leftarrow>A. length (filter P r))"
  by (induction A) auto

lemma count_nonzero_card:
  assumes "has_shape n n A"
  shows "count_nonzero A = card {(i, j). i < n \<and> j < n \<and> A ! i ! j \<noteq> 0}"
proof -
  let ?row = "\<lambda>i. {j. j < n \<and> A ! i ! j \<noteq> 0}"
  have len: "length A = n" and rows: "\<And>i. i < n \<Longrightarrow> length (A ! i) = n"
    using assms by (auto simp: has_shape_def list_all_length)
  have "count_nonzero A = (\<Sum>r\<leftarrow>A. length (filter (\<lambda>x. x \<noteq> 0) r))"
    by (simp add: count_nonzero_def length_filter_concat)
  also have "\<dots> = (\<Sum>i<n. length (filter (\<lambda>x. x \<noteq> 0) (A ! i)))"
    using len by (simp add: sum_list_sum_nth atLeast0LessThan)
  also have "\<dots> = (\<Sum>i<n. card (?row i))"
    by (rule sum.cong) (simp_all add: length_filter_conv_card rows)
  also have "\<dots> = card (SIGMA i:{..<n}. ?row i)"
    by (subst card_SigmaI) simp_all
  also have "(SIGMA i:{..<n}. ?row i) = {(i, j). i < n \<and> j < n \<and> A ! i ! j \<noteq> 0}"
    by auto
  finally show ?thesis .
qed

lemma edges_to_adj_matrix_correct:
  assumes "edges \<noteq> []" "\<forall>(u, v)\<in>set edges. u < num_nodes \<and> v < num_nodes"
  shows "\<exists>A. edges_to_adj_matrix edges num_nodes = Inr A \<and> has_shape num_nodes num_nodes A \<and>
     (\<forall>i<num_nodes. \<forall>j<num_nodes.
        A ! i ! j = (if (i, j) \<in> set edges \<or> (j, i) \<in> set edges then 1 else 0) \<and>
        A ! i ! j = A ! j ! i)"
proof -
  from adj_loop_entries[OF has_shape_zeros assms(2)]
  obtain A where A: "adj_loop edges (zeros num_nodes num_nodes) = Inr A" "has_shape num_nodes num_nodes A"
    "\<forall>i<num_nodes. \<forall>j<num_nodes. A ! i ! j =
       (if (i, j) \<in> set edges \<or> (j, i) \<in> set edges then 1 else (zeros num_nodes num_nodes :: int array2) ! i ! j)"
    by blast
  have "A ! i ! j = (if (i, j) \<in> set edges \<or> (j, i) \<in> set edges then 1 else 0)"
    if "i < num_nodes" "j < num_nodes" for i j
    using A(3) that by (simp add: zeros_def)
  then have "\<forall>i<num_nodes. \<forall>j<num_nodes.
        A ! i ! j = (if (i, j) \<in> set edges \<or> (j, i) \<in> set edges then 1 else 0) \<and>
        A ! i ! j = A ! j ! i"
    by auto
  moreover have "edges_to_adj_matrix edges num_nodes = Inr A"
    using assms(1) A(1) by (simp add: edges_to_adj_matrix_def)
  ultimately show ?thesis using A(2) by blast
qed

lemma edges_to_adj_matrix_count:
  assumes "edges_to_adj_matrix edges num_nodes = Inr A"
    and "distinct edges"
    and "\<forall>(u, v)\<in>set edges. u \<noteq> v \<and> (v, u) \<notin> set edges"
  shows "count_nonzero A = 2 * length edges"
proof -
  have ne: "edges \<noteq> []" using assms(1) by (auto simp: edges_to_adj_matrix_def)
  have range: "\<forall>(u, v)\<in>set edges. u < num_nodes \<and> v < num_nodes"
  proof (rule ccontr)
    assume "\<not> ?thesis"
    from adj_loop_out_of_range[OF has_shape_zeros this] assms(1) ne show False
      by (simp add: edges_to_adj_matrix_def)
  qed
  from edges_to_adj_matrix_correct[OF ne range] assms(1)
  have sh: "has_shape num_nodes num_nodes A"
    and ent: "\<And>i j. i < num_nodes \<Longrightarrow> j < num_nodes \<Longrightarrow>
        A ! i ! j = (if (i, j) \<in> set edges \<or> (j, i) \<in> set edges then 1 else 0)"
    by auto
  let ?S = "set edges" and ?R = "prod.swap ` set edges"
  have "{(i, j). i < num_nodes \<and> j < num_nodes \<and> A ! i ! j \<noteq> 0} = ?S \<union> ?R"
  proof (intro set_eqI iffI)
    fix p assume "p \<in> {(i, j). i < num_nodes \<and> j < num_nodes \<and> A ! i ! j \<noteq> 0}"
    then obtain i j where p: "p = (i, j)" "i < num_nodes" "j < num_nodes" "A ! i ! j \<noteq> 0" by auto
    with ent[of i j] have "(i, j) \<in> ?S \<or> (j, i) \<in> ?S" by (auto split: if_splits)
    then show "p \<in> ?S \<union> ?R" by (force simp: p(1))
  next
    fix p assume "p \<in> ?S \<union> ?R"
    obtain i j where p: "p = (i, j)" by (cases p)
    with \<open>p \<in> ?S \<union> ?R\<close> have m: "(i, j) \<in> ?S \<or> (j, i) \<in> ?S" by auto
    with range have "i < num_nodes" "j < num_nodes" by auto
    with ent[of i j] m show "p \<in> {(i, j). i < num_nodes \<and> j < num_nodes \<and> A ! i ! j \<noteq> 0}"
      by (simp add: p)
  qed
  moreover have "?S \<inter> ?R = {}" using assms(3) by auto
  moreover have "card ?R = card ?S" by (rule card_image) (rule inj_swap)
  moreover have "card ?S = length edges" using assms(2) by (rule distinct_card)
  ultimately show ?thesis
    by (simp add: count_nonzero_card[OF sh] card_Un_disjoint)
qed

subsection \<open>Claim C10\<close>

text \<open>
  C10. For a spanning tree without edges \<^verbatim>\<open>generate_unweighted_adj_matrix\<close> raises
  \<^verbatim>\<open>IndexError\<close> (at \<^verbatim>\<open>edges.shape[1]\<close>) and returns no matrix; the tree
  \<^verbatim>\<open>get_mst\<close> returns for a weight matrix of a single row is such a tree.
\<close>

theorem generate_unweighted_adj_matrix_empty_tree:
  "(graph_edges mst = [] \<longrightarrow> generate_unweighted_adj_matrix mst num_nodes = Inl IndexError) \<and>
   get_mst [row] = Inr [] \<and> graph_edges [] = []"
  by (simp add: generate_unweighted_adj_matrix_def edges_to_adj_matrix_def get_mst_single_row
      graph_edges_def)

theorem generate_unweighted_adj_matrix_empty_tree_witness:
  "graph_edges [] = [] \<and> generate_unweighted_adj_matrix [] 1 = Inl IndexError \<and>
   get_mst [[Fin 1]] = Inr []"
  using generate_unweighted_adj_matrix_empty_tree[of "[]" 1 "[Fin 1]"]
  by simp

subsection \<open>Claim C5\<close>

text \<open>
  C5 at the tree of a two by two weight matrix: one node, no edge.  The empty edge list
  meets the conditions of the claim, which promises the two by two zero matrix with
  \<open>2 * (N - 2) = 0\<close> non-zero entries; the code raises \<^verbatim>\<open>IndexError\<close>.  On the
  edge lists that are not empty the claim holds, by the lemmas above.
\<close>

theorem generate_unweighted_adj_matrix_two_sequences:
  "get_mst [[Fin 1, Fin (1/2)], [Fin (1/2), Fin 1]] = Inr [(0, [])] \<and>
   graph_edges [(0, [])] = [] \<and>
   generate_unweighted_adj_matrix [(0, [])] 2 = Inl IndexError"
  by (simp add: get_mst_two_rows generate_unweighted_adj_matrix_def edges_to_adj_matrix_def
      graph_edges_def)

subsection \<open>Claim C9\<close>



section \<open>Adding edges to a graph\<close>

lemma map_entry_keys: "map fst (AList.map_entry k f xs) = map fst xs"
  by (induction xs) auto

lemma nodes_add_node: "nodes (add_node x G) = (if x \<in> set (nodes G) then nodes G else nodes G @ [x])"
  by (simp add: add_node_def nodes_def)

lemma nodes_add_edge:
  "nodes (add_edge u v w G) = nodes (add_node v (add_node u G))"
  by (simp add: add_edge_def Let_def nodes_def map_entry_keys)

lemma set_nodes_add_edge: "set (nodes (add_edge u v w G)) = insert u (insert v (set (nodes G)))"
  by (auto simp: nodes_add_edge nodes_add_node)

lemma distinct_nodes_add_edge: "distinct (nodes G) \<Longrightarrow> distinct (nodes (add_edge u v w G))"
  by (auto simp: nodes_add_edge nodes_add_node)

lemma map_of_None_nodes: "map_of G u = None \<longleftrightarrow> u \<notin> set (nodes G)"
  by (simp add: nodes_def map_of_eq_None_iff)

lemma map_of_add_node:
  "map_of (add_node x G) u = (if u = x \<and> x \<notin> set (nodes G) then Some [] else map_of G u)"
proof (cases "x \<in> set (nodes G)")
  case True
  then show ?thesis by (simp add: add_node_def)
next
  case False
  then have "map_of G x = None" by (simp add: map_of_None_nodes)
  then show ?thesis using False
    by (cases "map_of G u") (auto simp: add_node_def map_add_def)
qed

lemma edge_data_adj_of: "edge_data G u v = map_of (adj_of G u) v"
  by (simp add: edge_data_def adj_of_def split: option.splits)

lemma adj_of_add_node: "adj_of (add_node x G) u = adj_of G u"
proof (cases "u = x \<and> x \<notin> set (nodes G)")
  case True
  then have "map_of G u = None" by (simp add: map_of_None_nodes)
  with True show ?thesis by (simp add: adj_of_def map_of_add_node)
next
  case False
  then show ?thesis by (auto simp: adj_of_def map_of_add_node)
qed

lemma map_of_node: "u \<in> set (nodes G) \<Longrightarrow> map_of G u = Some (adj_of G u)"
  by (cases "map_of G u") (auto simp: adj_of_def map_of_None_nodes)

lemma map_of_add_edge:
  "map_of (add_edge u v w G) a =
     (if a = v then Some (AList.update u w (if u = v then AList.update v w (adj_of G v) else adj_of G v))
      else if a = u then Some (AList.update v w (adj_of G u))
      else map_of G a)"
proof -
  let ?G2 = "add_node v (add_node u G)"
  have "u \<in> set (nodes ?G2)" "v \<in> set (nodes ?G2)"
    by (auto simp: nodes_add_node)
  then have "map_of ?G2 u = Some (adj_of ?G2 u)" "map_of ?G2 v = Some (adj_of ?G2 v)"
    by (simp_all add: map_of_node)
  then have u: "map_of ?G2 u = Some (adj_of G u)" and v: "map_of ?G2 v = Some (adj_of G v)"
    by (simp_all add: adj_of_add_node)
  have other: "map_of ?G2 a = map_of G a" if "a \<noteq> u" "a \<noteq> v"
    using that by (simp add: map_of_add_node)
  let ?G3 = "AList.map_entry u (AList.update v w) ?G2"
  have G3: "map_of ?G3 = (map_of ?G2)(u := Some (AList.update v w (adj_of G u)))"
    by (simp add: AList.map_of_map_entry u)
  have G3v: "map_of ?G3 v = Some (if u = v then AList.update v w (adj_of G v) else adj_of G v)"
    by (simp add: G3 v)
  have G4: "map_of (add_edge u v w G) =
      (map_of ?G3)(v := Some (AList.update u w (if u = v then AList.update v w (adj_of G v) else adj_of G v)))"
    by (simp add: add_edge_def Let_def AList.map_of_map_entry[of v] G3v)
  show ?thesis
  proof (cases "a = v")
    case True
    then show ?thesis by (simp add: G4)
  next
    case False
    note av = this
    show ?thesis
    proof (cases "a = u")
      case True
      with av show ?thesis by (simp add: G4 G3)
    next
      case False
      with av show ?thesis by (simp add: G4 G3 other)
    qed
  qed
qed

lemma adj_of_add_edge:
  "adj_of (add_edge u v w G) a =
     (if a = v then AList.update u w (if u = v then AList.update v w (adj_of G v) else adj_of G v)
      else if a = u then AList.update v w (adj_of G u)
      else adj_of G a)"
  by (simp add: adj_of_def[of "add_edge u v w G"] map_of_add_edge) (simp add: adj_of_def)

lemma edge_data_add_edge:
  "edge_data (add_edge u v w G) a b =
     (if (a = u \<and> b = v) \<or> (a = v \<and> b = u) then Some w else edge_data G a b)"
proof -
  have 1: "edge_data (add_edge u v w G) v b = (if b = u then Some w else edge_data G v b)"
    by (cases "u = v") (simp_all add: edge_data_adj_of adj_of_add_edge AList.update_conv')
  have 2: "edge_data (add_edge u v w G) u b = (if b = v then Some w else edge_data G u b)" if "u \<noteq> v"
    using that by (simp add: edge_data_adj_of adj_of_add_edge AList.update_conv')
  have 3: "edge_data (add_edge u v w G) a b = edge_data G a b" if "a \<noteq> u" "a \<noteq> v"
    using that by (simp add: edge_data_adj_of adj_of_add_edge)
  show ?thesis
  proof (cases "a = v")
    case True
    then show ?thesis using 1 by auto
  next
    case False
    note av = this
    show ?thesis
    proof (cases "a = u")
      case True
      with av 2 show ?thesis by auto
    next
      case False
      with av 3 show ?thesis by auto
    qed
  qed
qed

lemma distinct_adj_of: "wf_graph G \<Longrightarrow> distinct (map fst (adj_of G u))"
  by (auto simp: wf_graph_def adj_of_def split: option.splits)

lemma wf_graph_add_edge:
  assumes "wf_graph G"
  shows "wf_graph (add_edge u v w G)"
proof -
  note du = distinct_adj_of[OF assms, of u] and dv = distinct_adj_of[OF assms, of v]
  have d: "distinct (map fst (adj_of (add_edge u v w G) a))" for a
  proof (cases "a = v")
    case True
    then show ?thesis using dv
      by (cases "u = v") (simp_all add: adj_of_add_edge AList.distinct_update)
  next
    case False
    then show ?thesis using du distinct_adj_of[OF assms, of a]
      by (cases "a = u") (simp_all add: adj_of_add_edge AList.distinct_update)
  qed
  have "distinct (map fst nbrs)" if "map_of (add_edge u v w G) a = Some nbrs" for a nbrs
    using d[of a] that by (simp add: adj_of_def)
  moreover have "edge_data (add_edge u v w G) b a = Some x"
    if h: "edge_data (add_edge u v w G) a b = Some x" for a b x
  proof (cases "(a = u \<and> b = v) \<or> (a = v \<and> b = u)")
    case True
    with h have "x = w" by (simp add: edge_data_add_edge)
    with True show ?thesis by (auto simp: edge_data_add_edge)
  next
    case False
    with h have "edge_data G a b = Some x" by (simp add: edge_data_add_edge)
    with assms have "edge_data G b a = Some x" unfolding wf_graph_def by blast
    with False show ?thesis by (auto simp: edge_data_add_edge)
  qed
  moreover have "distinct (nodes (add_edge u v w G))"
    using assms by (simp add: distinct_nodes_add_edge wf_graph_def)
  ultimately show ?thesis unfolding wf_graph_def by blast
qed

lemma wf_graph_empty: "wf_graph []"
  by (simp add: wf_graph_def nodes_def edge_data_def)

section \<open>The graph built by get_mst\<close>

lemma np_get_nat:
  "i < length W \<Longrightarrow> j < length (W ! i) \<Longrightarrow> np_get W (int i) (int j) = Inr (W ! i ! j)"
  by (simp add: np_get_def np_index_def)

lemma get_mst_inner_fold:
  "i < length W \<Longrightarrow> \<forall>j\<in>set js. j < length (W ! i) \<Longrightarrow>
   get_mst_inner W i js G = Inr (fold (mst_step W i) js G)"
  by (induction js arbitrary: G) (auto simp: np_get_nat mst_step_def split: np_float.splits)

lemma get_mst_outer_fold:
  "\<forall>i\<in>set is. i < length W \<and> (\<forall>j\<in>set js. j < length (W ! i)) \<Longrightarrow>
   get_mst_outer W is js G = Inr (fold (\<lambda>i. fold (mst_step W i) js) is G)"
  by (induction "is" arbitrary: G) (auto simp: get_mst_inner_fold)

lemma wf_graph_mst_step: "wf_graph G \<Longrightarrow> wf_graph (mst_step W i j G)"
  by (auto simp: mst_step_def wf_graph_add_edge split: np_float.splits)

lemma wf_graph_fold_step: "wf_graph G \<Longrightarrow> wf_graph (fold (mst_step W i) js G)"
  by (induction js arbitrary: G) (auto simp: wf_graph_mst_step)

lemma wf_graph_fold_rows: "wf_graph G \<Longrightarrow> wf_graph (fold (\<lambda>i. fold (mst_step W i) js) is G)"
  by (induction "is" arbitrary: G) (auto simp: wf_graph_fold_step)

lemma edge_data_mst_step:
  "edge_data (mst_step W i j G) a b =
     (if (a = i \<and> b = j) \<or> (a = j \<and> b = i) then some_fin (W ! i ! j) (edge_data G a b)
      else edge_data G a b)"
  by (auto simp: mst_step_def some_fin_def edge_data_add_edge split: np_float.splits)

lemma row_val_Suc:
  "some_fin (row_val W i (Suc m) a b) d =
     (if (a = i \<and> b = m) \<or> (a = m \<and> b = i) then some_fin (W ! i ! m) (some_fin (row_val W i m a b) d)
      else some_fin (row_val W i m a b) d)"
  by (auto simp: row_val_def some_fin_def less_Suc_eq split: np_float.splits)

lemma edge_data_row:
  "edge_data (fold (mst_step W i) [0..<m] G) a b = some_fin (row_val W i m a b) (edge_data G a b)"
proof (induction m)
  case 0
  show ?case by (simp add: row_val_def some_fin_def)
next
  case (Suc m)
  show ?case
    by (simp only: upt_Suc_append[OF le0] fold_append o_apply fold.simps id_apply
          edge_data_mst_step Suc.IH row_val_Suc)
qed

lemma some_fin_simps: "some_fin NegInf d = d" "some_fin (Fin w) d = Some w"
  by (simp_all add: some_fin_def)

lemma some_fin_twice: "some_fin (if x = NegInf then y else x) d = some_fin x (some_fin y d)"
  by (cases x) (simp_all add: some_fin_def)

lemma pair_val_Suc:
  assumes "lo \<le> hi"
  shows "some_fin (pair_val W (Suc k) lo hi) None =
     some_fin (if hi = k then W ! k ! lo else if lo = k then W ! k ! hi else NegInf)
       (some_fin (pair_val W k lo hi) None)"
proof -
  consider "hi < k" | "hi = k" "lo < k" | "hi = k" "lo = k" | "k < hi" "lo < k" | "k < hi" "lo = k"
    | "k < lo"
    using assms by linarith
  then show ?thesis
  proof cases
    case 1
    then show ?thesis using assms by (simp add: pair_val_def some_fin_simps)
  next
    case 2
    then show ?thesis by (simp add: pair_val_def some_fin_simps some_fin_twice)
  next
    case 3
    then show ?thesis by (simp add: pair_val_def some_fin_simps some_fin_twice)
  next
    case 4
    then show ?thesis by (simp add: pair_val_def some_fin_simps)
  next
    case 5
    then show ?thesis by (simp add: pair_val_def some_fin_simps)
  next
    case 6
    then show ?thesis using assms by (simp add: pair_val_def some_fin_simps)
  qed
qed

lemma rows_val_Suc:
  assumes "k < n"
  shows "some_fin (rows_val W n (Suc k) a b) None =
         some_fin (row_val W k n a b) (some_fin (rows_val W n k a b) None)"
proof (cases "a < n")
  case False
  then show ?thesis using assms by (simp add: rows_val_def row_val_def some_fin_simps)
next
  case an: True
  show ?thesis
  proof (cases "b < n")
    case False
    then show ?thesis using assms an by (simp add: rows_val_def row_val_def some_fin_simps)
  next
    case bn: True
    show ?thesis
    proof (cases "a \<le> b")
      case True
      then show ?thesis using an bn pair_val_Suc[OF True, of W k]
        by (simp add: rows_val_def row_val_def)
    next
      case False
      then have ba: "b \<le> a" by simp
      show ?thesis using an bn False pair_val_Suc[OF ba, of W k]
        by (simp add: rows_val_def row_val_def)
    qed
  qed
qed

lemma edge_data_rows:
  "k \<le> n \<Longrightarrow>
   edge_data (fold (\<lambda>i. fold (mst_step W i) [0..<n]) [0..<k] []) a b = some_fin (rows_val W n k a b) None"
proof (induction k)
  case 0
  show ?case by (simp add: rows_val_def pair_val_def some_fin_def edge_data_def)
next
  case (Suc k)
  then have k: "k < n" "k \<le> n" by auto
  show ?case
    by (simp only: upt_Suc_append[OF le0] fold_append o_apply fold.simps id_apply
          edge_data_row Suc.IH[OF k(2)] rows_val_Suc[OF k(1)])
qed

lemma get_mst_graph_fold:
  assumes "has_shape n n W"
  shows "get_mst_graph W = Inr (fold (\<lambda>i. fold (mst_step W i) [0..<n - 1]) [0..<n - 1] [])"
proof -
  have "i < length W \<and> (\<forall>j\<in>set [0..<n - 1]. j < length (W ! i))" if "i \<in> set [0..<n - 1]" for i
    using that assms by (auto simp: has_shape_def list_all_length)
  then show ?thesis
    using assms by (simp add: get_mst_graph_def get_mst_outer_fold has_shape_def Let_def)
qed

lemma some_fin_pair_val_full:
  "hi < n \<Longrightarrow> some_fin (pair_val W n lo hi) None = expected_edge W lo hi"
  by (cases "W ! hi ! lo"; cases "W ! lo ! hi")
     (simp_all add: pair_val_def expected_edge_def some_fin_def)

lemma get_mst_graph_edge_data:
  assumes "has_shape n n W" and "get_mst_graph W = Inr G"
  shows "wf_graph G"
    and "lo \<le> hi \<Longrightarrow> hi < n - 1 \<Longrightarrow> edge_data G lo hi = expected_edge W lo hi"
    and "lo \<le> hi \<Longrightarrow> hi < n - 1 \<Longrightarrow> edge_data G hi lo = expected_edge W lo hi"
    and "\<not> (a < n - 1 \<and> b < n - 1) \<Longrightarrow> edge_data G a b = None"
proof -
  from assms have G: "G = fold (\<lambda>i. fold (mst_step W i) [0..<n - 1]) [0..<n - 1] []"
    by (simp add: get_mst_graph_fold)
  show "wf_graph G" unfolding G by (rule wf_graph_fold_rows[OF wf_graph_empty])
  have ed: "edge_data G a b = some_fin (rows_val W (n - 1) (n - 1) a b) None" for a b
    unfolding G by (rule edge_data_rows) simp
  show "edge_data G lo hi = expected_edge W lo hi" if "lo \<le> hi" "hi < n - 1"
    using that by (simp add: ed rows_val_def some_fin_pair_val_full)
  show "edge_data G hi lo = expected_edge W lo hi" if "lo \<le> hi" "hi < n - 1"
  proof (cases "lo = hi")
    case True
    with that show ?thesis by (simp add: ed rows_val_def some_fin_pair_val_full)
  next
    case False
    with that show ?thesis by (simp add: ed rows_val_def some_fin_pair_val_full)
  qed
  show "edge_data G a b = None" if "\<not> (a < n - 1 \<and> b < n - 1)"
    using that by (auto simp: ed rows_val_def some_fin_def)
qed

section \<open>The edge view\<close>

lemma before_Nil: "before [] u = {}"
  by (simp add: before_def)

lemma before_Cons: "before (x # xs) u = (if x = u then {} else insert x (before xs u))"
  by (cases "x = u") (simp_all add: before_def)

lemma before_subset: "v \<in> before xs u \<Longrightarrow> v \<in> set xs"
  unfolding before_def by (auto dest: set_takeWhileD)

lemma before_antisym:
  "u \<in> set xs \<Longrightarrow> v \<in> set xs \<Longrightarrow> v \<notin> before xs u \<Longrightarrow> u \<notin> before xs v \<Longrightarrow> u = v"
  by (induction xs) (auto simp: before_Cons before_Nil split: if_splits)

lemma before_asym: "v \<in> before xs u \<Longrightarrow> u \<notin> before xs v"
  by (induction xs) (auto simp: before_Cons before_Nil split: if_splits)

lemma before_self: "u \<notin> before xs u"
  unfolding before_def by (auto dest: set_takeWhileD)

lemma before_append_old: "u \<in> set xs \<Longrightarrow> before (xs @ ys) u = before xs u"
  by (induction xs) (auto simp: before_Cons)

lemma edges_from_set:
  assumes "distinct (map fst G)"
  shows "set (edges_from seen G) =
     {(u, v, w). \<exists>nbrs. (u, nbrs) \<in> set G \<and> (v, w) \<in> set nbrs \<and> v \<notin> set seen \<and>
        v \<notin> before (map fst G) u}"
  using assms
proof (induction G arbitrary: seen)
  case Nil
  show ?case by simp
next
  case (Cons p G)
  obtain n nbrs where p: "p = (n, nbrs)" by (cases p)
  from Cons.prems p have n: "n \<notin> fst ` set G" and d: "distinct (map fst G)" by auto
  note IH = Cons.IH[OF d, of "n # seen"]
  have "(u, v, w) \<in> set (edges_from seen (p # G)) \<longleftrightarrow>
      (\<exists>nb. (u, nb) \<in> set (p # G) \<and> (v, w) \<in> set nb \<and> v \<notin> set seen \<and>
        v \<notin> before (map fst (p # G)) u)" for u v w
  proof (cases "u = n")
    case True
    have notR: "(n, v, w) \<notin> set (edges_from (n # seen) G)"
      using n unfolding IH by force
    have "(\<exists>nb. (n, nb) \<in> set (p # G) \<and> (v, w) \<in> set nb \<and> v \<notin> set seen \<and>
        v \<notin> before (map fst (p # G)) n) \<longleftrightarrow> ((v, w) \<in> set nbrs \<and> v \<notin> set seen)"
      using n by (force simp: p before_Cons)
    moreover have "(n, v, w) \<in> set (edges_from seen (p # G)) \<longleftrightarrow> ((v, w) \<in> set nbrs \<and> v \<notin> set seen)"
      using notR by (auto simp: p)
    ultimately show ?thesis using True by simp
  next
    case False
    have "(u, v, w) \<in> set (edges_from seen (p # G)) \<longleftrightarrow> (u, v, w) \<in> set (edges_from (n # seen) G)"
      using False by (auto simp: p)
    also have "\<dots> \<longleftrightarrow> (\<exists>nb. (u, nb) \<in> set G \<and> (v, w) \<in> set nb \<and> v \<notin> set (n # seen) \<and>
        v \<notin> before (map fst G) u)"
      unfolding IH by simp
    also have "\<dots> \<longleftrightarrow> (\<exists>nb. (u, nb) \<in> set (p # G) \<and> (v, w) \<in> set nb \<and> v \<notin> set seen \<and>
        v \<notin> before (map fst (p # G)) u)"
      using False by (auto simp: p before_Cons)
    finally show ?thesis .
  qed
  then show ?case by auto
qed

lemma edges_from_distinct:
  assumes "distinct (map fst G)" and "\<forall>(n, nbrs)\<in>set G. distinct (map fst nbrs)"
  shows "distinct (edges_from seen G)"
  using assms
proof (induction G arbitrary: seen)
  case Nil
  show ?case by simp
next
  case (Cons p G)
  obtain n nbrs where p: "p = (n, nbrs)" by (cases p)
  from Cons.prems p have n: "n \<notin> fst ` set G" and d: "distinct (map fst G)"
    and dn: "distinct (map fst nbrs)" and rest: "\<forall>(n, nbrs)\<in>set G. distinct (map fst nbrs)"
    by auto
  have "distinct nbrs" using dn by (rule distinct_map[THEN iffD1, THEN conjunct1])
  then have 1: "distinct (map (\<lambda>(nbr, w). (n, nbr, w)) (filter (\<lambda>(nbr, w). nbr \<notin> set seen) nbrs))"
    by (auto simp: distinct_map inj_on_def)
  have 2: "distinct (edges_from (n # seen) G)" using Cons.IH[OF d rest] .
  have 3: "(n, v, w) \<notin> set (edges_from (n # seen) G)" for v w
    using n unfolding edges_from_set[OF d] by force
  show ?case using 1 2 3 by (auto simp: p)
qed

lemma map_of_mem: "distinct (map fst xs) \<Longrightarrow> (k, v) \<in> set xs \<longleftrightarrow> map_of xs k = Some v"
  by simp

lemma graph_edges_iff:
  assumes "wf_graph G"
  shows "(u, v, w) \<in> set (graph_edges G) \<longleftrightarrow> edge_data G u v = Some w \<and> v \<notin> before (nodes G) u"
proof -
  from assms have d: "distinct (map fst G)" by (simp add: wf_graph_def nodes_def)
  have "(\<exists>nbrs. (u, nbrs) \<in> set G \<and> (v, w) \<in> set nbrs) \<longleftrightarrow> edge_data G u v = Some w"
  proof
    assume "\<exists>nbrs. (u, nbrs) \<in> set G \<and> (v, w) \<in> set nbrs"
    then obtain nbrs where nb: "(u, nbrs) \<in> set G" "(v, w) \<in> set nbrs" by blast
    then have m: "map_of G u = Some nbrs" using d by simp
    with assms have "distinct (map fst nbrs)" unfolding wf_graph_def by blast
    with nb(2) have "map_of nbrs v = Some w" by simp
    with m show "edge_data G u v = Some w" by (simp add: edge_data_def)
  next
    assume "edge_data G u v = Some w"
    then obtain nbrs where "map_of G u = Some nbrs" "map_of nbrs v = Some w"
      by (auto simp: edge_data_def split: option.splits)
    then have "(u, nbrs) \<in> set G" "(v, w) \<in> set nbrs" by (auto dest: map_of_SomeD)
    then show "\<exists>nbrs. (u, nbrs) \<in> set G \<and> (v, w) \<in> set nbrs" by blast
  qed
  then show ?thesis
    unfolding graph_edges_def edges_from_set[OF d] nodes_def by auto
qed

lemma graph_edges_distinct: "wf_graph G \<Longrightarrow> distinct (graph_edges G)"
  unfolding graph_edges_def
  by (rule edges_from_distinct) (auto simp: wf_graph_def nodes_def dest!: map_of_is_SomeI[rotated])

lemma edge_data_nodes:
  assumes "edge_data G u v = Some w"
  shows "u \<in> set (nodes G)"
  using assms by (auto simp: edge_data_def nodes_def split: option.splits dest: map_of_SomeD intro: rev_image_eqI)

lemma edge_data_sym: "wf_graph G \<Longrightarrow> edge_data G u v = Some w \<Longrightarrow> edge_data G v u = Some w"
  unfolding wf_graph_def by blast

lemma edge_data_listed:
  assumes "wf_graph G" "edge_data G u v = Some w"
  shows "(u, v, w) \<in> set (graph_edges G) \<or> (v, u, w) \<in> set (graph_edges G)"
  using assms before_asym[of v "nodes G" u]
  by (auto simp: graph_edges_iff dest: edge_data_sym)

lemma graph_edges_unordered:
  assumes "wf_graph G" "(u, v, w) \<in> set (graph_edges G)" "(v, u, w') \<in> set (graph_edges G)"
  shows "u = v"
proof -
  from assms have "edge_data G u v = Some w" "v \<notin> before (nodes G) u" "u \<notin> before (nodes G) v"
    by (simp_all add: graph_edges_iff)
  moreover from this assms(1) have "u \<in> set (nodes G)" "v \<in> set (nodes G)"
    by (auto dest: edge_data_nodes edge_data_sym)
  ultimately show ?thesis by (auto dest: before_antisym)
qed

lemma graph_edges_weight_unique:
  assumes "wf_graph G" "(u, v, w) \<in> set (graph_edges G)" "(u, v, w') \<in> set (graph_edges G)"
  shows "w = w'"
  using assms by (simp add: graph_edges_iff)

section \<open>Union-find and the loop of Kruskal's algorithm\<close>

lemma links_mono: "E \<subseteq> F \<Longrightarrow> links E \<subseteq> links F"
  by (auto simp: links_def)

lemma reach_mono: "E \<subseteq> F \<Longrightarrow> reach E \<subseteq> reach F"
  unfolding reach_def by (rule rtrancl_mono) (rule links_mono)

lemma reach_refl: "(x, x) \<in> reach E"
  by (simp add: reach_def)

lemma reach_trans: "(x, y) \<in> reach E \<Longrightarrow> (y, z) \<in> reach E \<Longrightarrow> (x, z) \<in> reach E"
  unfolding reach_def by (rule rtrancl_trans)

lemma sym_links: "sym (links E)"
  by (auto simp: sym_def links_def)

lemma reach_sym: "(x, y) \<in> reach E \<Longrightarrow> (y, x) \<in> reach E"
  unfolding reach_def using sym_rtrancl[OF sym_links] by (auto dest: symD)

lemma reach_edge: "(u, v, w) \<in> E \<Longrightarrow> (u, v) \<in> reach E"
  unfolding reach_def links_def by auto

lemma links_insert: "links (insert (u, v, w) E) = insert (u, v) (insert (v, u) (links E))"
  by (auto simp: links_def)

lemma reach_insert:
  "(x, y) \<in> reach (insert (u, v, w) E) \<longleftrightarrow>
     (x, y) \<in> reach E \<or> ((x, u) \<in> reach E \<and> (v, y) \<in> reach E) \<or>
     ((x, v) \<in> reach E \<and> (u, y) \<in> reach E)"
  unfolding reach_def links_insert rtrancl_insert
  by (auto intro: rtrancl_trans)

lemma reach_insert_redundant:
  assumes "(u, v) \<in> reach E"
  shows "reach (insert (u, v, w) E) = reach E"
proof -
  have "(x, y) \<in> reach (insert (u, v, w) E) \<longleftrightarrow> (x, y) \<in> reach E" for x y
    using assms reach_sym[OF assms]
    by (auto simp: reach_insert intro: reach_trans)
  then show ?thesis by auto
qed

lemma reach_empty: "reach {} = Id"
  by (simp add: reach_def links_def)

lemma uf_rep_init: "uf_rep uf_init {}"
  by (simp add: uf_rep_def uf_init_def reach_empty)

lemma uf_rep_union:
  assumes "uf_rep uf E"
  shows "uf_rep (uf_union uf u v) (insert (u, v, w) E)"
proof -
  have r: "(x, y) \<in> reach E \<longleftrightarrow> uf x = uf y" for x y
    using assms by (simp add: uf_rep_def)
  show ?thesis
    unfolding uf_rep_def reach_insert r uf_union_def by auto
qed

lemma uf_rep_skip:
  assumes "uf_rep uf E" "uf u = uf v"
  shows "uf_rep uf (insert (u, v, w) E)"
proof -
  from assms have "(u, v) \<in> reach E" by (simp add: uf_rep_def)
  then show ?thesis using assms(1) by (simp add: reach_insert_redundant uf_rep_def)
qed

lemma uf_rep_same_reach: "uf_rep uf E \<Longrightarrow> uf_rep uf F \<Longrightarrow> reach E = reach F"
  by (auto simp: uf_rep_def)

lemma kruskal_uf_rep_all:
  "uf_rep uf E0 \<Longrightarrow> uf_rep (kruskal_uf es uf) (E0 \<union> set es)"
proof (induction es arbitrary: uf E0)
  case Nil
  then show ?case by simp
next
  case (Cons e es)
  obtain u v w where e: "e = (u, v, w)" by (cases e)
  show ?case
  proof (cases "uf u = uf v")
    case True
    from Cons.IH[OF uf_rep_skip[OF Cons.prems True, of w]]
    show ?thesis using True by (simp add: e)
  next
    case False
    from Cons.IH[OF uf_rep_union[OF Cons.prems, of u v w]]
    show ?thesis using False by (simp add: e)
  qed
qed

lemma kruskal_uf_rep_selected:
  "uf_rep uf E0 \<Longrightarrow> uf_rep (kruskal_uf es uf) (E0 \<union> set (kruskal_loop es uf))"
proof (induction es arbitrary: uf E0)
  case Nil
  then show ?case by simp
next
  case (Cons e es)
  obtain u v w where e: "e = (u, v, w)" by (cases e)
  show ?case
  proof (cases "uf u = uf v")
    case True
    from Cons.IH[OF Cons.prems]
    show ?thesis using True by (simp add: e)
  next
    case False
    from Cons.IH[OF uf_rep_union[OF Cons.prems, of u v w]]
    show ?thesis using False by (simp add: e)
  qed
qed

lemma uf_union_image:
  assumes "u \<in> V" "v \<in> V" "uf u \<noteq> uf v"
  shows "uf_union uf u v ` V = uf ` V - {uf v}"
proof
  show "uf_union uf u v ` V \<subseteq> uf ` V - {uf v}"
    using assms by (auto simp: uf_union_def)
  show "uf ` V - {uf v} \<subseteq> uf_union uf u v ` V"
  proof
    fix a assume "a \<in> uf ` V - {uf v}"
    then obtain x where x: "x \<in> V" "a = uf x" "uf x \<noteq> uf v" by auto
    then have "uf_union uf u v x = a" by (simp add: uf_union_def)
    with x(1) show "a \<in> uf_union uf u v ` V" by blast
  qed
qed

lemma kruskal_count:
  assumes "finite V" "\<forall>(u, v, w)\<in>set es. u \<in> V \<and> v \<in> V"
  shows "length (kruskal_loop es uf) + card (kruskal_uf es uf ` V) = card (uf ` V)"
  using assms(2)
proof (induction es arbitrary: uf)
  case Nil
  show ?case by simp
next
  case (Cons e es)
  obtain u v w where e: "e = (u, v, w)" by (cases e)
  from Cons.prems e have uv: "u \<in> V" "v \<in> V" and rest: "\<forall>(u, v, w)\<in>set es. u \<in> V \<and> v \<in> V"
    by auto
  show ?case
  proof (cases "uf u = uf v")
    case True
    then show ?thesis using Cons.IH[OF rest, of uf] by (simp add: e)
  next
    case False
    have "card (uf_union uf u v ` V) = card (uf ` V) - 1"
      using uv assms(1) by (simp add: uf_union_image[OF uv False])
    moreover have "card (uf ` V) \<ge> 1"
      using uv assms(1) by (auto simp: Suc_le_eq card_gt_0_iff)
    ultimately show ?thesis
      using False Cons.IH[OF rest, of "uf_union uf u v"] by (simp add: e)
  qed
qed

lemma card_image_refines:
  assumes "finite V" and "\<And>x y. x \<in> V \<Longrightarrow> y \<in> V \<Longrightarrow> g x = g y \<Longrightarrow> f x = f y"
  shows "card (f ` V) \<le> card (g ` V)"
proof -
  define h where "h a = f (SOME x. x \<in> V \<and> g x = a)" for a
  have "f x = h (g x)" if "x \<in> V" for x
  proof -
    have "\<exists>y. y \<in> V \<and> g y = g x" using that by blast
    then have "(SOME y. y \<in> V \<and> g y = g x) \<in> V \<and> g (SOME y. y \<in> V \<and> g y = g x) = g x"
      by (rule someI_ex)
    then show ?thesis unfolding h_def using assms(2) that by metis
  qed
  then have "f ` V = h ` (g ` V)" by (auto simp: image_iff)
  then show ?thesis using assms(1) by (simp add: card_image_le)
qed

lemma kruskal_loop_append:
  "kruskal_loop (ys @ zs) uf = kruskal_loop ys uf @ kruskal_loop zs (kruskal_uf ys uf)"
  by (induction ys uf rule: kruskal_loop.induct) auto

lemma kruskal_uf_append:
  "kruskal_uf (ys @ zs) uf = kruskal_uf zs (kruskal_uf ys uf)"
  by (induction ys uf rule: kruskal_uf.induct) auto

lemma kruskal_loop_subset: "set (kruskal_loop es uf) \<subseteq> set es"
  by (induction es uf rule: kruskal_loop.induct) auto

lemma kruskal_loop_distinct: "distinct es \<Longrightarrow> distinct (kruskal_loop es uf)"
proof (induction es uf rule: kruskal_loop.induct)
  case (2 u v w es subtrees)
  then show ?case using kruskal_loop_subset[of es] by (auto split: if_splits)
qed simp

lemma kruskal_loop_length: "length (kruskal_loop es uf) \<le> length es"
  by (induction es uf rule: kruskal_loop.induct) auto

lemma forest_subset: "forest T \<Longrightarrow> S \<subseteq> T \<Longrightarrow> forest S"
proof -
  assume T: "forest T" and ST: "S \<subseteq> T"
  have "(u, v) \<notin> reach (S - {(u, v, w)})" if "(u, v, w) \<in> S" for u v w
  proof -
    from that ST T have "(u, v) \<notin> reach (T - {(u, v, w)})" by (auto simp: forest_def)
    moreover have "reach (S - {(u, v, w)}) \<subseteq> reach (T - {(u, v, w)})"
      by (rule reach_mono) (use ST in auto)
    ultimately show ?thesis by blast
  qed
  then show ?thesis by (auto simp: forest_def)
qed

lemma forest_all_accepted:
  "distinct (pre @ ts) \<Longrightarrow> forest (set (pre @ ts)) \<Longrightarrow> uf_rep uf (set pre) \<Longrightarrow>
   kruskal_loop ts uf = ts"
proof (induction ts arbitrary: pre uf)
  case Nil
  show ?case by simp
next
  case (Cons e ts)
  obtain u v w where e: "e = (u, v, w)" by (cases e)
  from Cons.prems(1) have "e \<notin> set pre" by auto
  then have "set pre \<subseteq> set (pre @ e # ts) - {(u, v, w)}" by (auto simp: e)
  then have "reach (set pre) \<subseteq> reach (set (pre @ e # ts) - {(u, v, w)})" by (rule reach_mono)
  moreover from Cons.prems(2) have "(u, v) \<notin> reach (set (pre @ e # ts) - {(u, v, w)})"
    by (auto simp: forest_def e)
  ultimately have "(u, v) \<notin> reach (set pre)" by blast
  with Cons.prems(3) have ne: "uf u \<noteq> uf v" by (simp add: uf_rep_def)
  have rep: "uf_rep (uf_union uf u v) (set (pre @ [e]))"
    using uf_rep_union[OF Cons.prems(3), of u v w] by (simp add: e)
  have "kruskal_loop ts (uf_union uf u v) = ts"
    by (rule Cons.IH[of "pre @ [e]"]) (use Cons.prems rep in auto)
  with ne show ?case by (simp add: e)
qed

section \<open>Counting the edges above a threshold\<close>

lemma length_filter_remove1:
  "a \<in> set l \<Longrightarrow> length (filter P (remove1 a l)) + (if P a then 1 else 0) = length (filter P l)"
  by (induction l) auto

lemma sum_list_remove1_real:
  fixes l :: "real list"
  shows "a \<in> set l \<Longrightarrow> sum_list (remove1 a l) = sum_list l - a"
  by (induction l) auto

lemma majorize_sum:
  fixes xs ys :: "real list"
  assumes "length xs = length ys"
    and "\<And>t. length (filter (\<lambda>x. t \<le> x) xs) \<le> length (filter (\<lambda>y. t \<le> y) ys)"
  shows "sum_list xs \<le> sum_list ys"
  using assms
proof (induction "length xs" arbitrary: xs ys)
  case 0
  then show ?case by simp
next
  case (Suc n)
  from Suc.hyps(2) have xs_ne: "xs \<noteq> []" by auto
  define x1 where "x1 = Max (set xs)"
  have x1_in: "x1 \<in> set xs" unfolding x1_def using xs_ne by (intro Max_in) auto
  have x1_max: "x \<le> x1" if "x \<in> set xs" for x unfolding x1_def using that by (intro Max_ge) auto
  have "0 < length (filter (\<lambda>x. x1 \<le> x) xs)"
    using x1_in by (auto simp: filter_empty_conv)
  with Suc.prems(2)[of x1] have "filter (\<lambda>y. x1 \<le> y) ys \<noteq> []" by auto
  then obtain y where y: "y \<in> set ys" "x1 \<le> y" by (auto simp: filter_empty_conv)
  define y1 where "y1 = Max (set ys)"
  have y1_in: "y1 \<in> set ys" unfolding y1_def using y(1) by (intro Max_in) auto
  have "y \<le> y1" unfolding y1_def using y(1) by (intro Max_ge) auto
  with y(2) have x1y1: "x1 \<le> y1" by simp
  let ?xs = "remove1 x1 xs" and ?ys = "remove1 y1 ys"
  have len: "n = length ?xs" "length ?xs = length ?ys"
    using Suc.hyps(2) Suc.prems(1) x1_in y1_in by (simp_all add: length_remove1)
  have cnt: "length (filter (\<lambda>x. t \<le> x) ?xs) \<le> length (filter (\<lambda>y. t \<le> y) ?ys)" for t
  proof (cases "t \<le> x1")
    case True
    with x1y1 have "t \<le> y1" by simp
    with True Suc.prems(2)[of t] show ?thesis
      using length_filter_remove1[OF x1_in, of "\<lambda>x. t \<le> x"]
        length_filter_remove1[OF y1_in, of "\<lambda>x. t \<le> x"] by simp
  next
    case False
    then have "filter (\<lambda>x. t \<le> x) xs = []"
      using x1_max by (fastforce simp: filter_empty_conv)
    then show ?thesis using length_filter_remove1[OF x1_in, of "\<lambda>x. t \<le> x"] False by simp
  qed
  from Suc.hyps(1)[OF len cnt] have "sum_list ?xs \<le> sum_list ?ys" .
  then show ?case using x1_in y1_in x1y1 by (simp add: sum_list_remove1_real)
qed

lemma sorted_threshold_split:
  assumes "sorted (map (\<lambda>e. - edge_weight e) es)"
  shows "\<exists>ys zs. es = ys @ zs \<and> (\<forall>e\<in>set ys. t \<le> edge_weight e) \<and> (\<forall>e\<in>set zs. edge_weight e < t)"
  using assms
proof (induction es)
  case Nil
  then show ?case by simp
next
  case (Cons e es)
  then have le: "\<forall>e'\<in>set es. edge_weight e' \<le> edge_weight e" and s: "sorted (map (\<lambda>e. - edge_weight e) es)"
    by auto
  show ?case
  proof (cases "t \<le> edge_weight e")
    case True
    from Cons.IH[OF s] obtain ys zs where "es = ys @ zs" "\<forall>e\<in>set ys. t \<le> edge_weight e"
      "\<forall>e\<in>set zs. edge_weight e < t" by blast
    with True have "e # es = (e # ys) @ zs \<and> (\<forall>e\<in>set (e # ys). t \<le> edge_weight e) \<and>
      (\<forall>e\<in>set zs. edge_weight e < t)" by simp
    then show ?thesis by blast
  next
    case False
    with le have "\<forall>e'\<in>set (e # es). edge_weight e' < t" by fastforce
    then have "e # es = [] @ (e # es) \<and> (\<forall>e\<in>set []. t \<le> edge_weight e) \<and>
      (\<forall>e'\<in>set (e # es). edge_weight e' < t)" by simp
    then show ?thesis by blast
  qed
qed

lemma kruskal_threshold_dominates:
  assumes sorted: "sorted (map (\<lambda>e. - edge_weight e) es)"
    and V: "finite V" "\<forall>(u, v, w)\<in>set es. u \<in> V \<and> v \<in> V"
    and T: "distinct ts" "set ts \<subseteq> set es" "forest (set ts)"
  shows "length (filter (\<lambda>e. t \<le> edge_weight e) ts)
       \<le> length (filter (\<lambda>e. t \<le> edge_weight e) (kruskal_loop es uf_init))"
proof -
  from sorted_threshold_split[OF sorted, of t]
  obtain ys zs where es: "es = ys @ zs" and ys: "\<forall>e\<in>set ys. t \<le> edge_weight e"
    and zs: "\<forall>e\<in>set zs. edge_weight e < t" by blast
  let ?K1 = "kruskal_loop ys uf_init" and ?K2 = "kruskal_loop zs (kruskal_uf ys uf_init)"
  have K: "kruskal_loop es uf_init = ?K1 @ ?K2" by (simp add: es kruskal_loop_append)
  have "filter (\<lambda>e. t \<le> edge_weight e) ?K1 = ?K1"
    using ys kruskal_loop_subset[of ys uf_init] by (auto simp: filter_id_conv)
  moreover have "filter (\<lambda>e. t \<le> edge_weight e) ?K2 = []"
    using zs kruskal_loop_subset[of zs "kruskal_uf ys uf_init"] by (fastforce simp: filter_empty_conv)
  ultimately have fK: "filter (\<lambda>e. t \<le> edge_weight e) (kruskal_loop es uf_init) = ?K1"
    by (simp add: K)
  have Vys: "\<forall>(u, v, w)\<in>set ys. u \<in> V \<and> v \<in> V" using V(2) by (simp add: es)
  have cK: "length ?K1 + card (kruskal_uf ys uf_init ` V) = card (uf_init ` V)"
    by (rule kruskal_count[OF V(1) Vys])
  have repK: "uf_rep (kruskal_uf ys uf_init) (set ys)"
    using kruskal_uf_rep_all[OF uf_rep_init, of ys] by simp
  let ?ts = "filter (\<lambda>e. t \<le> edge_weight e) ts"
  have ts_sub: "set ?ts \<subseteq> set ys"
  proof
    fix e assume "e \<in> set ?ts"
    then have "e \<in> set es" "t \<le> edge_weight e" using T(2) by auto
    then show "e \<in> set ys" using zs by (auto simp: es)
  qed
  have "forest (set ?ts)" by (rule forest_subset[OF T(3)]) auto
  then have acc: "kruskal_loop ?ts uf_init = ?ts"
    using forest_all_accepted[of "[]" ?ts uf_init] T(1) uf_rep_init by simp
  have Vts: "\<forall>(u, v, w)\<in>set ?ts. u \<in> V \<and> v \<in> V" using ts_sub Vys by blast
  have cT: "length ?ts + card (kruskal_uf ?ts uf_init ` V) = card (uf_init ` V)"
    using kruskal_count[OF V(1) Vts, of uf_init] by (simp add: acc)
  have repT: "uf_rep (kruskal_uf ?ts uf_init) (set ?ts)"
    using kruskal_uf_rep_all[OF uf_rep_init, of ?ts] by simp
  have "card (kruskal_uf ys uf_init ` V) \<le> card (kruskal_uf ?ts uf_init ` V)"
  proof (rule card_image_refines[OF V(1)])
    fix x y assume "kruskal_uf ?ts uf_init x = kruskal_uf ?ts uf_init y"
    then have "(x, y) \<in> reach (set ?ts)" using repT by (simp add: uf_rep_def)
    then have "(x, y) \<in> reach (set ys)" using reach_mono[OF ts_sub] by blast
    then show "kruskal_uf ys uf_init x = kruskal_uf ys uf_init y" using repK by (simp add: uf_rep_def)
  qed
  with cK cT show ?thesis by (simp add: fK)
qed

section \<open>The selected edges form a maximum spanning tree\<close>

lemma uf_repD: "uf_rep uf E \<Longrightarrow> (uf x = uf y) = ((x, y) \<in> reach E)"
  unfolding uf_rep_def by (erule allE[of _ x], erule allE[of _ y])

lemma card_uf_connected:
  assumes "spans V E" "uf_rep uf E" "V \<noteq> {}"
  shows "card (uf ` V) = 1"
proof -
  from assms(3) obtain x0 where x0: "x0 \<in> V" by blast
  have eq: "uf x = uf x0" if "x \<in> V" for x
  proof -
    from assms(1) that x0 have "(x, x0) \<in> reach E" unfolding spans_def by blast
    then show ?thesis by (simp only: uf_repD[OF assms(2)])
  qed
  have "uf ` V = {uf x0}"
  proof
    show "uf ` V \<subseteq> {uf x0}" using eq by blast
    show "{uf x0} \<subseteq> uf ` V" using x0 by blast
  qed
  then show ?thesis by simp
qed

lemma uf_init_image: "uf_init ` V = V"
  by (auto simp: uf_init_def)

lemma spanning_forest_size:
  assumes "finite V" "V \<noteq> {}" "\<forall>(u, v, w)\<in>set ts. u \<in> V \<and> v \<in> V"
    and "distinct ts" "forest (set ts)" "spans V (set ts)"
  shows "length ts + 1 = card V"
proof -
  have acc: "kruskal_loop ts uf_init = ts"
    using forest_all_accepted[of "[]" ts uf_init] assms(4,5) uf_rep_init by simp
  have rep: "uf_rep (kruskal_uf ts uf_init) (set ts)"
    using kruskal_uf_rep_all[OF uf_rep_init, of ts] by simp
  from kruskal_count[OF assms(1,3), of uf_init] card_uf_connected[OF assms(6) rep assms(2)]
  show ?thesis by (simp add: acc uf_init_image)
qed

lemma kruskal_forest:
  assumes "finite V" "\<forall>(u, v, w)\<in>set es. u \<in> V \<and> v \<in> V" "distinct es"
  shows "forest (set (kruskal_loop es uf_init))"
proof -
  let ?K = "kruskal_loop es uf_init"
  let ?uf = "kruskal_uf es uf_init"
  have dK: "distinct ?K" using assms(3) by (rule kruskal_loop_distinct)
  have repK: "uf_rep ?uf (set ?K)"
    using kruskal_uf_rep_selected[OF uf_rep_init, of es] by simp
  have cK: "length ?K + card (?uf ` V) = card V"
    using kruskal_count[OF assms(1,2), of uf_init] by (simp add: uf_init_image)
  have False if e: "(u, v, w) \<in> set ?K" and r: "(u, v) \<in> reach (set ?K - {(u, v, w)})" for u v w
  proof -
    let ?F = "remove1 (u, v, w) ?K"
    have setF: "set ?F = set ?K - {(u, v, w)}" using dK by simp
    have lenF: "length ?F < length ?K"
      using e length_pos_if_in_set[OF e] by (simp add: length_remove1)
    have "insert (u, v, w) (set ?F) = set ?K" using e setF by auto
    with reach_insert_redundant[of u v "set ?F" w] r setF
    have same: "reach (set ?F) = reach (set ?K)" by simp
    have "set ?F \<subseteq> set es" using kruskal_loop_subset[of es uf_init] setF by blast
    with assms(2) have VF: "\<forall>(u, v, w)\<in>set ?F. u \<in> V \<and> v \<in> V"
      by (meson subsetD)
    have repF: "uf_rep (kruskal_uf ?F uf_init) (set ?F)"
      using kruskal_uf_rep_all[OF uf_rep_init, of ?F] by simp
    have "card (kruskal_uf ?F uf_init ` V) \<le> card (?uf ` V)"
    proof (rule card_image_refines[OF assms(1)])
      fix x y assume "?uf x = ?uf y"
      then have "(x, y) \<in> reach (set ?F)" using repK same by (simp add: uf_rep_def)
      then show "kruskal_uf ?F uf_init x = kruskal_uf ?F uf_init y"
        using repF by (simp add: uf_rep_def)
    qed
    moreover have "length (kruskal_loop ?F uf_init) + card (kruskal_uf ?F uf_init ` V) = card V"
      using kruskal_count[OF assms(1) VF, of uf_init] by (simp add: uf_init_image)
    moreover have "length (kruskal_loop ?F uf_init) \<le> length ?F" by (rule kruskal_loop_length)
    ultimately show False using cK lenF by linarith
  qed
  then show ?thesis by (auto simp: forest_def)
qed

lemma kruskal_spans:
  assumes "spans V (set es)"
  shows "spans V (set (kruskal_loop es uf_init))"
proof -
  have "uf_rep (kruskal_uf es uf_init) (set es)"
    using kruskal_uf_rep_all[OF uf_rep_init, of es] by simp
  moreover have "uf_rep (kruskal_uf es uf_init) (set (kruskal_loop es uf_init))"
    using kruskal_uf_rep_selected[OF uf_rep_init, of es] by simp
  ultimately have "reach (set es) = reach (set (kruskal_loop es uf_init))"
    by (rule uf_rep_same_reach)
  with assms show ?thesis by (simp add: spans_def)
qed

lemma kruskal_size:
  assumes "finite V" "V \<noteq> {}" "\<forall>(u, v, w)\<in>set es. u \<in> V \<and> v \<in> V" "spans V (set es)"
  shows "length (kruskal_loop es uf_init) + 1 = card V"
proof -
  have rep: "uf_rep (kruskal_uf es uf_init) (set es)"
    using kruskal_uf_rep_all[OF uf_rep_init, of es] by simp
  from kruskal_count[OF assms(1,3), of uf_init] card_uf_connected[OF assms(4) rep assms(2)]
  show ?thesis by (simp add: uf_init_image)
qed

lemma kruskal_maximal:
  assumes sorted: "sorted (map (\<lambda>e. - edge_weight e) es)"
    and V: "finite V" "V \<noteq> {}" "\<forall>(u, v, w)\<in>set es. u \<in> V \<and> v \<in> V"
    and conn: "spans V (set es)"
    and T: "T \<subseteq> set es" "forest T" "spans V T"
    and d: "distinct es"
  shows "sum edge_weight T \<le> sum edge_weight (set (kruskal_loop es uf_init))"
proof -
  let ?K = "kruskal_loop es uf_init"
  have "finite T" using T(1) by (rule finite_subset) simp
  then obtain ts where ts: "set ts = T" "distinct ts" using finite_distinct_list by blast
  have "set ts \<subseteq> set es" using T(1) ts(1) by simp
  with V(3) have Vts: "\<forall>(u, v, w)\<in>set ts. u \<in> V \<and> v \<in> V" by (meson subsetD)
  have lt: "length ts + 1 = card V"
    using spanning_forest_size[OF V(1,2) Vts ts(2)] T(2,3) ts(1) by simp
  have lk: "length ?K + 1 = card V" by (rule kruskal_size[OF V conn])
  have dK: "distinct ?K" using d by (rule kruskal_loop_distinct)
  have "sum_list (map edge_weight ts) \<le> sum_list (map edge_weight ?K)"
  proof (rule majorize_sum)
    show "length (map edge_weight ts) = length (map edge_weight ?K)" using lt lk by simp
  next
    fix t
    have "length (filter (\<lambda>e. t \<le> edge_weight e) ts) \<le> length (filter (\<lambda>e. t \<le> edge_weight e) ?K)"
      by (rule kruskal_threshold_dominates[OF sorted V(1,3) ts(2)]) (use T ts in auto)
    then show "length (filter (\<lambda>x. t \<le> x) (map edge_weight ts))
        \<le> length (filter (\<lambda>y. t \<le> y) (map edge_weight ?K))"
      by (simp add: filter_map o_def)
  qed
  moreover have "sum edge_weight T = sum_list (map edge_weight ts)"
    using sum.distinct_set_conv_list[OF ts(2), of edge_weight] by (simp add: ts(1))
  moreover have "sum edge_weight (set ?K) = sum_list (map edge_weight ?K)"
    by (rule sum.distinct_set_conv_list[OF dK])
  ultimately show ?thesis by simp
qed

section \<open>The graph returned by maximum_spanning_tree\<close>

lemma nodes_empty_tree: "nodes (empty_tree G) = nodes G"
  by (simp add: empty_tree_def nodes_def o_def)

lemma edge_data_empty_tree: "edge_data (empty_tree G) a b = None"
proof (cases "map_of (empty_tree G) a")
  case None
  then show ?thesis by (simp add: edge_data_def)
next
  case (Some nbrs)
  then have "(a, nbrs) \<in> set (empty_tree G)" by (rule map_of_SomeD)
  then have "nbrs = []" by (auto simp: empty_tree_def)
  with Some show ?thesis by (simp add: edge_data_def)
qed

lemma wf_graph_empty_tree: "distinct (nodes G) \<Longrightarrow> wf_graph (empty_tree G)"
  unfolding wf_graph_def
proof (intro conjI allI impI)
  assume "distinct (nodes G)"
  then show "distinct (nodes (empty_tree G))" by (simp add: nodes_empty_tree)
next
  fix u nbrs assume "map_of (empty_tree G) u = Some nbrs"
  then have "(u, nbrs) \<in> set (empty_tree G)" by (rule map_of_SomeD)
  then have "nbrs = []" by (auto simp: empty_tree_def)
  then show "distinct (map fst nbrs)" by simp
next
  fix u v w assume "edge_data (empty_tree G) u v = Some w"
  then show "edge_data (empty_tree G) v u = Some w" by (simp add: edge_data_empty_tree)
qed

lemma add_edges_Nil: "add_edges [] T = T"
  by (simp add: add_edges_def)

lemma add_edges_snoc: "add_edges (es @ [(u, v, w)]) T = add_edge u v w (add_edges es T)"
  by (simp add: add_edges_def)

lemma wf_graph_add_edges: "wf_graph T \<Longrightarrow> wf_graph (add_edges es T)"
proof (induction es rule: rev_induct)
  case Nil
  then show ?case by (simp add: add_edges_Nil)
next
  case (snoc e es)
  obtain u v w where e: "e = (u, v, w)" by (cases e)
  from snoc show ?case by (simp add: e add_edges_snoc wf_graph_add_edge)
qed

lemma nodes_add_edge_old:
  "u \<in> set (nodes G) \<Longrightarrow> v \<in> set (nodes G) \<Longrightarrow> nodes (add_edge u v w G) = nodes G"
  by (simp add: nodes_add_edge nodes_add_node)

lemma nodes_add_edges:
  "\<forall>(u, v, w)\<in>set es. u \<in> set (nodes T) \<and> v \<in> set (nodes T) \<Longrightarrow> nodes (add_edges es T) = nodes T"
proof (induction es rule: rev_induct)
  case Nil
  then show ?case by (simp add: add_edges_Nil)
next
  case (snoc e es)
  obtain u v w where e: "e = (u, v, w)" by (cases e)
  from snoc.prems have uv: "u \<in> set (nodes T)" "v \<in> set (nodes T)"
    and rest: "\<forall>(u, v, w)\<in>set es. u \<in> set (nodes T) \<and> v \<in> set (nodes T)"
    by (auto simp: e)
  from snoc.IH[OF rest] uv show ?case by (simp add: e add_edges_snoc nodes_add_edge_old)
qed

lemma edge_data_add_edges:
  assumes "\<And>a b. edge_data T a b = None"
    and "\<And>e e'. e \<in> set es \<Longrightarrow> e' \<in> set es \<Longrightarrow> same_pair e e' \<Longrightarrow> edge_weight e = edge_weight e'"
  shows "edge_data (add_edges es T) a b = Some x \<longleftrightarrow> (a, b, x) \<in> set es \<or> (b, a, x) \<in> set es"
  using assms(2)
proof (induction es rule: rev_induct)
  case Nil
  show ?case by (simp add: add_edges_Nil assms(1))
next
  case (snoc e es)
  obtain u v w where e: "e = (u, v, w)" by (cases e)
  have IH: "edge_data (add_edges es T) a b = Some x \<longleftrightarrow> (a, b, x) \<in> set es \<or> (b, a, x) \<in> set es"
    by (rule snoc.IH) (use snoc.prems in auto)
  show ?case
  proof (cases "(a = u \<and> b = v) \<or> (a = v \<and> b = u)")
    case False
    then show ?thesis
      by (auto simp: e add_edges_snoc edge_data_add_edge IH)
  next
    case True
    have uniq: "x = w" if "(a, b, x) \<in> set es \<or> (b, a, x) \<in> set es"
    proof -
      from that obtain e' where e': "e' \<in> set es" "e' = (a, b, x) \<or> e' = (b, a, x)" by blast
      with True have "same_pair e' e" by (auto simp: same_pair_def e)
      with snoc.prems[of e' e] e'(1) have "edge_weight e' = edge_weight e" by simp
      with e'(2) show ?thesis by (auto simp: edge_weight_def e)
    qed
    have "edge_data (add_edges (es @ [e]) T) a b = Some w"
      using True by (simp add: e add_edges_snoc edge_data_add_edge)
    then show ?thesis using True uniq by (auto simp: e)
  qed
qed

lemma maximum_spanning_tree_add_edges:
  "maximum_spanning_tree G = add_edges (kruskal_mst_edges G) (empty_tree G)"
  by (simp add: maximum_spanning_tree_def add_edges_def empty_tree_def Let_def)

lemma graph_edges_endpoints:
  assumes "wf_graph G" "(u, v, w) \<in> set (graph_edges G)"
  shows "u \<in> set (nodes G) \<and> v \<in> set (nodes G)"
proof -
  from assms have "edge_data G u v = Some w" by (simp add: graph_edges_iff)
  with assms(1) show ?thesis by (auto dest: edge_data_nodes edge_data_sym)
qed

lemma graph_edges_same_pair:
  assumes "wf_graph G" "e \<in> set (graph_edges G)" "e' \<in> set (graph_edges G)" "same_pair e e'"
  shows "edge_weight e = edge_weight e'"
proof -
  obtain u v w where e: "e = (u, v, w)" by (cases e)
  obtain u' v' w' where e': "e' = (u', v', w')" by (cases e')
  from assms(4) consider "u = u'" "v = v'" | "u = v'" "v = u'"
    by (auto simp: same_pair_def e e')
  then show ?thesis
  proof cases
    case 1
    with assms(2,3) graph_edges_weight_unique[OF assms(1), of u v w w'] show ?thesis
      by (simp add: e e' edge_weight_def)
  next
    case 2
    with assms(2,3) graph_edges_unordered[OF assms(1), of u v w w'] have "u = v"
      by (simp add: e e')
    with 2 assms(2,3) graph_edges_weight_unique[OF assms(1), of u v w w'] show ?thesis
      by (simp add: e e' edge_weight_def)
  qed
qed

lemma kruskal_mst_edges_subset: "set (kruskal_mst_edges G) \<subseteq> set (graph_edges G)"
  using kruskal_loop_subset[of "sorted_edges G" uf_init]
  by (simp add: kruskal_mst_edges_def sorted_edges_def)

lemma maximum_spanning_tree_edges:
  assumes "wf_graph G"
  shows "wf_graph (maximum_spanning_tree G)"
    and "nodes (maximum_spanning_tree G) = nodes G"
    and "set (graph_edges (maximum_spanning_tree G)) = set (kruskal_mst_edges G)"
proof -
  let ?K = "kruskal_mst_edges G" and ?T = "maximum_spanning_tree G"
  note sub = kruskal_mst_edges_subset[of G]
  from assms have dn: "distinct (nodes G)" by (simp add: wf_graph_def)
  show wfT: "wf_graph ?T"
    unfolding maximum_spanning_tree_add_edges
    by (rule wf_graph_add_edges[OF wf_graph_empty_tree[OF dn]])
  have ends: "\<forall>(u, v, w)\<in>set ?K. u \<in> set (nodes (empty_tree G)) \<and> v \<in> set (nodes (empty_tree G))"
    using sub graph_edges_endpoints[OF assms] by (auto simp: nodes_empty_tree)
  show nT: "nodes ?T = nodes G"
    unfolding maximum_spanning_tree_add_edges
    using nodes_add_edges[OF ends] by (simp add: nodes_empty_tree)
  have ed: "edge_data ?T a b = Some x \<longleftrightarrow> (a, b, x) \<in> set ?K \<or> (b, a, x) \<in> set ?K" for a b x
    unfolding maximum_spanning_tree_add_edges
  proof (rule edge_data_add_edges)
    show "edge_data (empty_tree G) a b = None" for a b by (rule edge_data_empty_tree)
  next
    fix e e' assume "e \<in> set ?K" "e' \<in> set ?K" "same_pair e e'"
    then show "edge_weight e = edge_weight e'"
      using sub graph_edges_same_pair[OF assms, of e e'] by blast
  qed
  show "set (graph_edges ?T) = set ?K"
  proof (intro set_eqI iffI)
    fix e assume "e \<in> set (graph_edges ?T)"
    obtain u v w where e: "e = (u, v, w)" by (cases e)
    from \<open>e \<in> set (graph_edges ?T)\<close> have 1: "edge_data ?T u v = Some w" and 2: "v \<notin> before (nodes G) u"
      by (simp_all add: graph_edges_iff[OF wfT] e nT)
    from 1 consider "(u, v, w) \<in> set ?K" | "(v, u, w) \<in> set ?K" by (auto simp: ed)
    then show "e \<in> set ?K"
    proof cases
      case 1
      then show ?thesis by (simp add: e)
    next
      case 2
      with sub have g: "(v, u, w) \<in> set (graph_edges G)" by blast
      then have "u \<notin> before (nodes G) v" by (simp add: graph_edges_iff[OF assms])
      moreover from g have "v \<in> set (nodes G)" "u \<in> set (nodes G)"
        using graph_edges_endpoints[OF assms] by blast+
      ultimately have "u = v" using \<open>v \<notin> before (nodes G) u\<close> by (auto dest: before_antisym)
      with 2 show ?thesis by (simp add: e)
    qed
  next
    fix e assume k: "e \<in> set ?K"
    obtain u v w where e: "e = (u, v, w)" by (cases e)
    from k sub have "(u, v, w) \<in> set (graph_edges G)" by (auto simp: e)
    then have "v \<notin> before (nodes G) u" by (simp add: graph_edges_iff[OF assms])
    moreover from k have "edge_data ?T u v = Some w" by (simp add: ed e)
    ultimately show "e \<in> set (graph_edges ?T)"
      by (simp add: graph_edges_iff[OF wfT] e nT)
  qed
qed

section \<open>Properties of get_mst\<close>

lemma wf_graph_get_mst_inner:
  "get_mst_inner W i js G = Inr G' \<Longrightarrow> wf_graph G \<Longrightarrow> wf_graph G'"
proof (induction js arbitrary: G)
  case Nil
  then show ?case by simp
next
  case (Cons j js)
  from Cons.prems(1) obtain x where x: "np_get W (int i) (int j) = Inr x"
    by (auto split: sum.splits)
  show ?case
  proof (cases x)
    case NegInf
    with Cons x show ?thesis by simp
  next
    case (Fin w)
    with Cons.prems x have "get_mst_inner W i js (add_edge i j w G) = Inr G'" by simp
    then show ?thesis by (rule Cons.IH) (rule wf_graph_add_edge[OF Cons.prems(2)])
  qed
qed

lemma wf_graph_get_mst_outer:
  "get_mst_outer W is js G = Inr G' \<Longrightarrow> wf_graph G \<Longrightarrow> wf_graph G'"
proof (induction "is" arbitrary: G)
  case Nil
  then show ?case by simp
next
  case (Cons i "is")
  from Cons.prems(1) obtain G1 where G1: "get_mst_inner W i js G = Inr G1"
    and rest: "get_mst_outer W is js G1 = Inr G'"
    by (auto split: sum.splits)
  from rest show ?case by (rule Cons.IH) (rule wf_graph_get_mst_inner[OF G1 Cons.prems(2)])
qed

lemma wf_graph_get_mst_graph: "get_mst_graph W = Inr G \<Longrightarrow> wf_graph G"
  unfolding get_mst_graph_def Let_def by (erule wf_graph_get_mst_outer) (rule wf_graph_empty)

lemma sorted_sorted_edges: "sorted (map (\<lambda>e. - edge_weight e) (sorted_edges G))"
proof -
  have "(\<lambda>(u, v, w). - w) = (\<lambda>e :: wedge. - edge_weight e)"
    by (auto simp: edge_weight_def fun_eq_iff)
  then show ?thesis unfolding sorted_edges_def by (simp add: sorted_sort_key)
qed

lemma set_sorted_edges: "set (sorted_edges G) = set (graph_edges G)"
  by (simp add: sorted_edges_def)

lemma distinct_sorted_edges: "wf_graph G \<Longrightarrow> distinct (sorted_edges G)"
  by (simp add: sorted_edges_def graph_edges_distinct)

subsection \<open>Claim C2\<close>

text \<open>
  C2. When the graph \<open>G\<close> that \<^verbatim>\<open>get_mst\<close> builds from the weight matrix (over the
  indices \<open>0..N-2\<close>) is connected, \<^verbatim>\<open>get_mst\<close> returns a graph \<open>T\<close> on the nodes
  of \<open>G\<close> whose edges form a spanning tree of \<open>G\<close>: they are edges of \<open>G\<close>, have no
  cycle, connect all nodes, and there are exactly (number of nodes - 1) of them.  The sum
  of their weights is at least the total weight of every spanning tree of \<open>G\<close>.
\<close>

theorem get_mst_maximum_spanning_tree:
  assumes "get_mst_graph W = Inr G" and "graph_connected G"
  shows "\<exists>T. get_mst W = Inr T \<and> nodes T = nodes G \<and>
           spanning_tree G (set (graph_edges T)) \<and>
           length (graph_edges T) + 1 = length (nodes G) \<and>
           (\<forall>T'. spanning_tree G T' \<longrightarrow> total_weight T' \<le> total_weight (set (graph_edges T)))"
proof -
  let ?T = "maximum_spanning_tree G" and ?V = "set (nodes G)" and ?es = "sorted_edges G"
  let ?K = "kruskal_loop ?es uf_init"
  have wf: "wf_graph G" using assms(1) by (rule wf_graph_get_mst_graph)
  note mt = maximum_spanning_tree_edges[OF wf]
  have K: "set (graph_edges ?T) = set ?K" using mt(3) by (simp add: kruskal_mst_edges_def)
  have V: "finite ?V" "?V \<noteq> {}" using assms(2) by (auto simp: graph_connected_def)
  have ends: "\<forall>(u, v, w)\<in>set ?es. u \<in> ?V \<and> v \<in> ?V"
    using graph_edges_endpoints[OF wf] by (auto simp: set_sorted_edges)
  have conn: "spans ?V (set ?es)" using assms(2) by (simp add: graph_connected_def set_sorted_edges)
  have dK: "distinct ?K" by (rule kruskal_loop_distinct[OF distinct_sorted_edges[OF wf]])
  have dT: "distinct (graph_edges ?T)" by (rule graph_edges_distinct[OF mt(1)])
  have "length (graph_edges ?T) = card (set (graph_edges ?T))" using dT by (simp add: distinct_card)
  also have "\<dots> = length ?K" using dK by (simp add: K distinct_card)
  finally have len: "length (graph_edges ?T) = length ?K" .
  have "card ?V = length (nodes G)" using wf by (simp add: wf_graph_def distinct_card)
  with kruskal_size[OF V ends conn] len have size: "length (graph_edges ?T) + 1 = length (nodes G)"
    by simp
  have st: "spanning_tree G (set (graph_edges ?T))"
    unfolding spanning_tree_def K
  proof (intro conjI)
    show "set ?K \<subseteq> set (graph_edges G)"
      using kruskal_loop_subset[of ?es uf_init] by (simp add: set_sorted_edges)
    show "forest (set ?K)" by (rule kruskal_forest[OF V(1) ends distinct_sorted_edges[OF wf]])
    show "spans ?V (set ?K)" by (rule kruskal_spans[OF conn])
  qed
  have opt: "total_weight T' \<le> total_weight (set (graph_edges ?T))" if "spanning_tree G T'" for T'
    unfolding total_weight_def K
    by (rule kruskal_maximal[OF sorted_sorted_edges V ends conn _ _ _ distinct_sorted_edges[OF wf]])
       (use that in \<open>auto simp: spanning_tree_def set_sorted_edges\<close>)
  have "get_mst W = Inr ?T" using assms(1) by (simp add: get_mst_def)
  with mt(2) st size opt show ?thesis by blast
qed

lemma get_mst_graph_demo: "get_mst_graph demo_weights = Inr demo_graph"
  by (simp add: demo_weights_def demo_graph_def mst_eval)

lemma get_mst_demo: "get_mst demo_weights = Inr demo_tree"
  by (simp add: demo_weights_def demo_tree_def mst_eval)

lemma graph_edges_demo_graph:
  "graph_edges demo_graph = [(0, 0, 1), (0, 1, 1/2), (0, 2, 1/4), (1, 1, 1), (1, 2, 1/4), (2, 2, 1)]"
  by (simp add: demo_graph_def graph_edges_def)

lemma graph_edges_demo_tree: "graph_edges demo_tree = [(0, 1, 1/2), (0, 2, 1/4)]"
  by (simp add: demo_tree_def graph_edges_def)

lemma graph_connected_demo: "graph_connected demo_graph"
proof -
  let ?E = "set (graph_edges demo_graph)"
  have r01: "(0, 1) \<in> reach ?E" by (rule reach_edge[of _ _ "1/2"]) (simp add: graph_edges_demo_graph)
  have r02: "(0, 2) \<in> reach ?E" by (rule reach_edge[of _ _ "1/4"]) (simp add: graph_edges_demo_graph)
  note r10 = reach_sym[OF r01] and r20 = reach_sym[OF r02]
  note r12 = reach_trans[OF r10 r02]
  note r21 = reach_sym[OF r12]
  have "nodes demo_graph = [0, 1, 2]" by (simp add: demo_graph_def nodes_def)
  then show ?thesis
    using r01 r02 r10 r20 r12 r21
    by (simp add: graph_connected_def spans_def reach_refl)
qed

theorem get_mst_maximum_spanning_tree_witness:
  "get_mst_graph demo_weights = Inr demo_graph \<and> graph_connected demo_graph \<and>
   get_mst demo_weights = Inr demo_tree \<and>
   spanning_tree demo_graph (set (graph_edges demo_tree)) \<and>
   length (graph_edges demo_tree) + 1 = length (nodes demo_graph) \<and>
   graph_edges demo_tree = [(0, 1, 1/2), (0, 2, 1/4)]"
  using get_mst_maximum_spanning_tree[OF get_mst_graph_demo graph_connected_demo]
  by (auto simp: get_mst_demo get_mst_graph_demo graph_connected_demo graph_edges_demo_tree)

lemma nodes_mst_step: "set (nodes (mst_step W i j G)) \<subseteq> insert i (insert j (set (nodes G)))"
  by (cases "W ! i ! j") (auto simp: mst_step_def set_nodes_add_edge)

lemma nodes_fold_step: "set (nodes (fold (mst_step W i) js G)) \<subseteq> insert i (set js) \<union> set (nodes G)"
proof (induction js arbitrary: G)
  case Nil
  show ?case by auto
next
  case (Cons j js)
  from Cons.IH[of "mst_step W i j G"] nodes_mst_step[of W i j G]
  show ?case by auto
qed

lemma nodes_fold_rows:
  "set (nodes (fold (\<lambda>i. fold (mst_step W i) js) is G)) \<subseteq> set is \<union> set js \<union> set (nodes G)"
proof (induction "is" arbitrary: G)
  case Nil
  show ?case by auto
next
  case (Cons i "is")
  from Cons.IH[of "fold (mst_step W i) js G"] nodes_fold_step[of W i js G]
  show ?case by auto
qed

subsection \<open>Claim C4\<close>

text \<open>
  C4, amended. For an \<open>N \<times> N\<close> weight matrix \<open>W\<close> the graph handed to the spanning
  tree algorithm has its nodes among the indices \<open>0..N-2\<close>.  For \<open>lo \<le> hi \<le> N-2\<close>,
  \<open>lo = hi\<close> included, it has an edge between \<open>lo\<close> and \<open>hi\<close> exactly when \<open>W[hi][lo]\<close>
  or \<open>W[lo][hi]\<close> is not the sentinel; the weight is \<open>W[hi][lo]\<close>, the later write,
  unless that is the sentinel, and then \<open>W[lo][hi]\<close>.  There is no other edge, and the
  edge view lists every edge once.
\<close>

theorem get_mst_graph_edges:
  assumes "has_shape n n W"
  shows "\<exists>G. get_mst_graph W = Inr G \<and>
     (\<forall>a\<in>set (nodes G). a < n - 1) \<and>
     (\<forall>lo hi. lo \<le> hi \<and> hi < n - 1 \<longrightarrow>
        edge_data G lo hi = expected_edge W lo hi \<and> edge_data G hi lo = expected_edge W lo hi) \<and>
     (\<forall>a b. \<not> (a < n - 1 \<and> b < n - 1) \<longrightarrow> edge_data G a b = None) \<and>
     (\<forall>u v w. (u, v, w) \<in> set (graph_edges G) \<longrightarrow> edge_data G u v = Some w) \<and>
     (\<forall>u v w. edge_data G u v = Some w \<longrightarrow>
        (u, v, w) \<in> set (graph_edges G) \<or> (v, u, w) \<in> set (graph_edges G)) \<and>
     distinct (graph_edges G) \<and>
     (\<forall>u v w w'. (u, v, w) \<in> set (graph_edges G) \<and> (v, u, w') \<in> set (graph_edges G) \<longrightarrow> u = v)"
proof -
  define G where "G = fold (\<lambda>i. fold (mst_step W i) [0..<n - 1]) [0..<n - 1] []"
  have G: "get_mst_graph W = Inr G" unfolding G_def by (rule get_mst_graph_fold[OF assms])
  note ed = get_mst_graph_edge_data[OF assms G]
  have "set (nodes G) \<subseteq> set [0..<n - 1] \<union> set [0..<n - 1] \<union> set (nodes [])"
    unfolding G_def by (rule nodes_fold_rows)
  then have 1: "\<forall>a\<in>set (nodes G). a < n - 1" by (auto simp: nodes_def)
  have 2: "\<forall>lo hi. lo \<le> hi \<and> hi < n - 1 \<longrightarrow>
        edge_data G lo hi = expected_edge W lo hi \<and> edge_data G hi lo = expected_edge W lo hi"
    using ed(2,3) by blast
  have 3: "\<forall>a b. \<not> (a < n - 1 \<and> b < n - 1) \<longrightarrow> edge_data G a b = None"
    using ed(4) by blast
  have 4: "\<forall>u v w. (u, v, w) \<in> set (graph_edges G) \<longrightarrow> edge_data G u v = Some w"
    by (simp add: graph_edges_iff[OF ed(1)])
  have 5: "\<forall>u v w. edge_data G u v = Some w \<longrightarrow>
        (u, v, w) \<in> set (graph_edges G) \<or> (v, u, w) \<in> set (graph_edges G)"
    using edge_data_listed[OF ed(1)] by blast
  have 6: "distinct (graph_edges G)" by (rule graph_edges_distinct[OF ed(1)])
  have 7: "\<forall>u v w w'. (u, v, w) \<in> set (graph_edges G) \<and> (v, u, w') \<in> set (graph_edges G) \<longrightarrow> u = v"
    using graph_edges_unordered[OF ed(1)] by blast
  from G 1 2 3 4 5 6 7 show ?thesis by blast
qed

lemma get_mst_graph_asym: "get_mst_graph asym_weights = Inr asym_graph"
  by (simp add: asym_weights_def asym_graph_def mst_eval)

theorem get_mst_graph_edges_witness:
  "has_shape 3 3 asym_weights \<and> get_mst_graph asym_weights = Inr asym_graph \<and>
   edge_data asym_graph 0 1 = Some 3 \<and> expected_edge asym_weights 0 1 = Some 3 \<and>
   edge_data asym_graph 1 1 = None \<and> expected_edge asym_weights 0 0 = Some 1 \<and>
   graph_edges asym_graph = [(0, 0, 1), (0, 1, 3)]"
proof -
  have sh: "has_shape 3 3 asym_weights" by (simp add: has_shape_def asym_weights_def)
  from get_mst_graph_edges[OF sh] get_mst_graph_asym
  have "edge_data asym_graph 0 1 = expected_edge asym_weights 0 1" by auto
  moreover have "expected_edge asym_weights 0 1 = Some 3" "expected_edge asym_weights 0 0 = Some 1"
    by (simp_all add: expected_edge_def asym_weights_def)
  moreover have "edge_data asym_graph 1 1 = None" "graph_edges asym_graph = [(0, 0, 1), (0, 1, 3)]"
    by (simp_all add: edge_data_def asym_graph_def graph_edges_def)
  ultimately show ?thesis using sh get_mst_graph_asym by simp
qed

text \<open>
  C4 as stated fails: the loop has no test \<open>i \<noteq> j\<close>, so the graph of a three by three
  matrix with finite entries has, beside the edge between 0 and 1, the self-loops at 0
  and at 1.
\<close>

theorem get_mst_graph_has_self_loops:
  "get_mst_graph [[Fin 1, Fin (1/2), Fin 9], [Fin (1/2), Fin 1, Fin 9], [Fin 9, Fin 9, Fin 1]]
     = Inr [(0, [(0, 1), (1, 1/2)]), (1, [(0, 1/2), (1, 1)])] \<and>
   graph_edges [(0, [(0, 1), (1, 1/2)]), (1, [(0, 1/2), (1, 1)])]
     = [(0, 0, 1), (0, 1, 1/2), (1, 1, 1)]"
  by (simp add: mst_eval)

section \<open>Properties of generate_data\<close>

lemma generate_node_features_demo1:
  "generate_node_features demo_env 4 (1/10) 0 = (Inr features1, 1)"
  unfolding features1_def by code_simp

lemma generate_node_features_demo2:
  "generate_node_features demo_env 4 (1/10) 1 = (Inr features2, 2)"
  unfolding features2_def by code_simp

lemma compute_log_likelihood_demo_const:
  assumes "accepted_index a" "accepted_index b"
  shows "compute_log_likelihood (replicate m a) (replicate m b) demo_model =
     Inr (real m * ln (trans_matrix demo_model 1 ! wrap4 a ! wrap4 b))"
proof -
  have "list_all accepted_index (replicate m a)" "list_all accepted_index (replicate m b)"
    using assms by (simp_all add: list_all_iff)
  then show ?thesis
    using compute_log_likelihood_closed_form[of "replicate m a" "replicate m b" demo_model, OF _ is_4x4_demo]
    by (simp add: zip_replicate sum_list_replicate) (simp add: demo_model_def)
qed

lemma cll_00: "compute_log_likelihood (replicate 10 0) (replicate 10 0) demo_model = Inr (10 * ln (7/10))"
  and cll_03: "compute_log_likelihood (replicate 10 0) (replicate 10 3) demo_model = Inr (10 * ln (1/10))"
  and cll_30: "compute_log_likelihood (replicate 10 3) (replicate 10 0) demo_model = Inr (10 * ln (1/10))"
  and cll_33: "compute_log_likelihood (replicate 10 3) (replicate 10 3) demo_model = Inr (10 * ln (7/10))"
  using compute_log_likelihood_demo_const[of 0 0 10] compute_log_likelihood_demo_const[of 0 3 10]
    compute_log_likelihood_demo_const[of 3 0 10] compute_log_likelihood_demo_const[of 3 3 10]
  by (simp_all add: accepted_index_def wrap4_def) (simp_all add: demo_model_def)

lemma exp_10_ln: "0 < (x :: real) \<Longrightarrow> exp (10 * ln x) = x ^ 10"
  using exp_of_nat_mult[of 10 "ln x"] by simp

lemma build_demo1:
  "build_weighted_adjacency_matrix features1 demo_model =
     Inr [[1, (7/10)^10, (1/10)^10, (7/10)^10],
          [(7/10)^10, 1, (1/10)^10, (7/10)^10],
          [(1/10)^10, (1/10)^10, 1, (1/10)^10],
          [(7/10)^10, (7/10)^10, (1/10)^10, 1]]"
  by (simp add: build_weighted_adjacency_matrix_def features1_def upt_rec zeros_def set_entry_def
      cll_00 cll_03 cll_30 cll_33 exp_10_ln del: power_numeral)

lemma build_demo2:
  "build_weighted_adjacency_matrix features2 demo_model =
     Inr [[1, (1/10)^10, (1/10)^10, (7/10)^10],
          [(1/10)^10, 1, (7/10)^10, (1/10)^10],
          [(1/10)^10, (7/10)^10, 1, (1/10)^10],
          [(7/10)^10, (1/10)^10, (1/10)^10, 1]]"
  by (simp add: build_weighted_adjacency_matrix_def features2_def upt_rec zeros_def set_entry_def
      cll_00 cll_03 cll_30 cll_33 exp_10_ln del: power_numeral)

lemma mst_adjacency_demo1:
  "mst_adjacency
      [[Fin 1, Fin ((7/10)^10), Fin ((1/10)^10), Fin ((7/10)^10)],
       [Fin ((7/10)^10), Fin 1, Fin ((1/10)^10), Fin ((7/10)^10)],
       [Fin ((1/10)^10), Fin ((1/10)^10), Fin 1, Fin ((1/10)^10)],
       [Fin ((7/10)^10), Fin ((7/10)^10), Fin ((1/10)^10), Fin 1]] 4
   = Inr [[0, 1, 1, 0], [1, 0, 0, 0], [1, 0, 0, 0], [0, 0, 0, 0]]"
  by (simp add: mst_eval) (simp add: eval_nat_numeral)

lemma mst_adjacency_demo2:
  "mst_adjacency
      [[Fin 1, Fin ((1/10)^10), Fin ((1/10)^10), Fin ((7/10)^10)],
       [Fin ((1/10)^10), Fin 1, Fin ((7/10)^10), Fin ((1/10)^10)],
       [Fin ((1/10)^10), Fin ((7/10)^10), Fin 1, Fin ((1/10)^10)],
       [Fin ((7/10)^10), Fin ((1/10)^10), Fin ((1/10)^10), Fin 1]] 4
   = Inr [[0, 1, 0, 0], [1, 0, 1, 0], [0, 1, 0, 0], [0, 0, 0, 0]]"
  by (simp add: mst_eval) (simp add: eval_nat_numeral)

lemma csr_demo1:
  "csr_matrix [[0, 1, 1, 0], [1, 0, 0, 0], [1, 0, 0, 0], [0, 0, 0, 0]] =
     \<lparr>data = [1, 1, 1, 1], indices = [1, 2, 0, 0], indptr = [0, 2, 3, 4, 4], shape = (4, 4)\<rparr>"
  by code_simp

lemma csr_demo2:
  "csr_matrix [[0, 1, 0, 0], [1, 0, 1, 0], [0, 1, 0, 0], [0, 0, 0, 0]] =
     \<lparr>data = [1, 1, 1, 1], indices = [1, 0, 2, 1], indptr = [0, 1, 3, 4, 4], shape = (4, 4)\<rparr>"
  by code_simp

lemma JukesCantor_demo: "JukesCantor demo_env alpha = demo_model"
  by (simp add: demo_env_def)

lemma generate_weighted_adj_matrix_demo:
  "generate_weighted_adj_matrix demo_env 4 (1/10) 1 =
     (Inr [[1, (1/10)^10, (1/10)^10, (7/10)^10],
          [(1/10)^10, 1, (7/10)^10, (1/10)^10],
          [(1/10)^10, (7/10)^10, 1, (1/10)^10],
          [(7/10)^10, (1/10)^10, (1/10)^10, 1]], 2)"
  by (simp add: generate_weighted_adj_matrix_def generate_node_features_demo2 JukesCantor_demo
      build_demo2 del: power_numeral One_nat_def)

lemma generate_data_demo:
  "generate_data demo_env 4 (1/10) 0 =
     (Inr ([], \<lparr>data = [1, 1, 1, 1], indices = [1, 0, 2, 1], indptr = [0, 1, 3, 4, 4], shape = (4, 4)\<rparr>,
           features1), 2)"
  by (simp add: generate_data_def generate_node_features_demo1 generate_weighted_adj_matrix_demo
      mst_adjacency_demo2 csr_demo2 features1_def shape1_def del: power_numeral One_nat_def)

lemma adjacency_of_features_demo:
  "adjacency_of_features demo_model features1 4 =
     Inr \<lparr>data = [1, 1, 1, 1], indices = [1, 2, 0, 0], indptr = [0, 2, 3, 4, 4], shape = (4, 4)\<rparr>"
  by (simp add: adjacency_of_features_def build_demo1 mst_adjacency_demo1 csr_demo1
      del: power_numeral One_nat_def)

lemma adjacency_of_features_demo2:
  "adjacency_of_features demo_model features2 4 =
     Inr \<lparr>data = [1, 1, 1, 1], indices = [1, 0, 2, 1], indptr = [0, 1, 3, 4, 4], shape = (4, 4)\<rparr>"
  by (simp add: adjacency_of_features_def build_demo2 mst_adjacency_demo2 csr_demo2
      del: power_numeral One_nat_def)

lemma generate_data_second_draw:
  assumes "generate_node_features env n_leaves alpha rng = (Inr features, rng1)"
    and "generate_node_features env n_leaves alpha rng1 = (Inr features', rng2)"
  shows "generate_data env n_leaves alpha rng =
     (case build_weighted_adjacency_matrix features' (JukesCantor env alpha) of
        Inl e \<Rightarrow> Inl e
      | Inr W \<Rightarrow>
          (case mst_adjacency (map (map Fin) W) n_leaves of
             Inl e \<Rightarrow> Inl e
           | Inr adj_matrix \<Rightarrow>
               Inr ((if length features \<noteq> length adj_matrix
                     then [''Inconsistant shape between node_features and adjancy matrix.'']
                     else []) @
                    (if length adj_matrix \<noteq> shape1 adj_matrix
                     then [''Invalid adjancy matrix.''] else []),
                    csr_matrix adj_matrix, features)),
      rng2)"
  using assms
  by (simp add: generate_data_def generate_weighted_adj_matrix_def split: sum.splits)

subsection \<open>Claim C1\<close>

text \<open>
  C1 at \<open>demo_env\<close>, four leaves, a fresh random generator.  The node features
  returned are those of the first simulation; the sparse matrix returned is the one the
  pipeline derives from the features of the second simulation, and it differs from the
  matrix the same pipeline derives from the features returned: the tree of the returned
  matrix joins node 1 to nodes 0 and 2, the tree of the returned features joins node 0
  to nodes 1 and 2.
\<close>

theorem generate_data_features_mismatch:
  "generate_data demo_env 4 (1/10) 0 =
     (Inr ([], \<lparr>data = [1, 1, 1, 1], indices = [1, 0, 2, 1], indptr = [0, 1, 3, 4, 4], shape = (4, 4)\<rparr>,
           features1), 2) \<and>
   adjacency_of_features (JukesCantor demo_env (1/10)) features2 4 =
     Inr \<lparr>data = [1, 1, 1, 1], indices = [1, 0, 2, 1], indptr = [0, 1, 3, 4, 4], shape = (4, 4)\<rparr> \<and>
   adjacency_of_features (JukesCantor demo_env (1/10)) features1 4 =
     Inr \<lparr>data = [1, 1, 1, 1], indices = [1, 2, 0, 0], indptr = [0, 2, 3, 4, 4], shape = (4, 4)\<rparr> \<and>
   \<lparr>data = [1, 1, 1, 1], indices = [1, 2, 0, 0 :: nat], indptr = [0, 2, 3, 4, 4 :: nat], shape = (4 :: nat, 4 :: nat)\<rparr>
     \<noteq> \<lparr>data = [1, 1, 1, 1 :: int], indices = [1, 0, 2, 1], indptr = [0, 1, 3, 4, 4], shape = (4, 4)\<rparr>"
  by (simp add: generate_data_demo adjacency_of_features_demo adjacency_of_features_demo2
      JukesCantor_demo)

end
